theory Spec2Isabelle
  imports Main "HOL-Library.Word" "HOL-Library.Multiset"
begin

text \<open>
  A model of three packages of the database: the index results of the bootstrap
  (\<open>result\<close>), the segment reader (\<open>xio\<close>) and the commit log (\<open>commitlog\<close>). A
  Go function that changes its receiver returns the new value of the receiver here; a
  function that can fail returns an error value beside its result.
\<close>

section \<open>Time\<close>

text \<open>
  Instants and durations are Go's \<open>time.Time\<close> and \<open>time.Duration\<close>. An instant is
  the number of nanoseconds since Go's zero time (January 1, year 1, 00:00:00 UTC), which
  is the origin \<open>Truncate\<close> counts from; a duration is a number of nanoseconds.
  \<open>xtime.UnixNano\<close> is an \<open>int64\<close>: \<open>ToUnixNano\<close> counts from the Unix epoch and
  wraps around outside the years 1678 to 2262.
\<close>

type_synonym Time = int
type_synonym Duration = int
type_synonym UnixNano = "64 word"

definition unixEpoch :: Time where
  "unixEpoch = 62135596800 * 1000000000"

definition IsZero :: "Time \<Rightarrow> bool" where
  "IsZero t = (t = 0)"

definition Truncate :: "Time \<Rightarrow> Duration \<Rightarrow> Time" where
  "Truncate t d = (if d \<le> 0 then t else t - t mod d)"

definition ToUnixNano :: "Time \<Rightarrow> UnixNano" where
  "ToUnixNano t = word_of_int (t - unixEpoch)"

text \<open>The instants whose Unix time in nanoseconds fits an \<open>int64\<close>.\<close>

definition representable :: "Time \<Rightarrow> bool" where
  "representable t = (- (2 ^ 63) \<le> t - unixEpoch \<and> t - unixEpoch < 2 ^ 63)"

section \<open>Time ranges and shard time ranges\<close>

text \<open>
  \<open>xtime.Range\<close> is a pair of a start and an end instant and stands for the half-open
  interval from the start to the end.
\<close>

type_synonym Range = "Time \<times> Time"

definition range_within :: "Range \<Rightarrow> Range \<Rightarrow> bool" where
  "range_within r w = (fst w \<le> fst r \<and> snd r \<le> snd w)"

definition in_range :: "Range \<Rightarrow> Time \<Rightarrow> bool" where
  "in_range r t = (fst r \<le> t \<and> t < snd r)"

text \<open>
  Modelled from the spec: the type \<open>ShardTimeRanges\<close> and its operations
  \<open>IsEmpty\<close>, \<open>MinMax\<close>, \<open>Copy\<close> and \<open>AddRanges\<close>, which the index results call and
  whose source is not part of the files at hand. The spec describes a mapping from a
  shard number (unsigned, 32 bits) to a set of disjoint half-open time ranges, kept in
  ascending start order; \<open>AddRanges\<close> is the union per shard, coalescing adjacent and
  overlapping ranges; \<open>MinMax\<close> is the earliest start and the latest end over all ranges
  of all shards, undefined on an empty value; \<open>IsEmpty\<close> holds iff no shard has any
  range; \<open>Copy\<close> is a deep copy. A shard without ranges has the empty list.
\<close>

type_synonym Ranges = "Range list"
type_synonym ShardTimeRanges = "32 word \<Rightarrow> Ranges"

fun AddRange :: "Range \<Rightarrow> Ranges \<Rightarrow> Ranges" where
  "AddRange r [] = [r]"
| "AddRange r (x # xs) =
     (if snd r < fst x then r # x # xs
      else if snd x < fst r then x # AddRange r xs
      else AddRange (min (fst r) (fst x), max (snd r) (snd x)) xs)"

definition Ranges_AddRanges :: "Ranges \<Rightarrow> Ranges \<Rightarrow> Ranges" where
  "Ranges_AddRanges rs other = fold (\<lambda>r acc. if fst r < snd r then AddRange r acc else acc) other rs"

definition NoRanges :: ShardTimeRanges where
  "NoRanges = (\<lambda>shard. [])"

definition IsEmpty :: "ShardTimeRanges \<Rightarrow> bool" where
  "IsEmpty m = (\<forall>shard. m shard = [])"

definition all_ranges :: "ShardTimeRanges \<Rightarrow> Range set" where
  "all_ranges m = (\<Union>shard. set (m shard))"

definition MinMax :: "ShardTimeRanges \<Rightarrow> Time \<times> Time" where
  "MinMax m = (Min (fst ` all_ranges m), Max (snd ` all_ranges m))"

definition Copy :: "ShardTimeRanges \<Rightarrow> ShardTimeRanges" where
  "Copy m = m"

definition AddRanges :: "ShardTimeRanges \<Rightarrow> ShardTimeRanges \<Rightarrow> ShardTimeRanges" where
  "AddRanges m other = (\<lambda>shard. Ranges_AddRanges (m shard) (other shard))"

section \<open>Index blocks and index results\<close>

text \<open>
  A \<open>segment.Segment\<close> is an interface value; the code tells a mutable segment from an
  immutable one by a type assertion. The number is the identity of the segment object.
\<close>

datatype Segment = MutableSegment nat | ImmutableSegment nat

record IndexBlock =
  blockStart :: Time
  segments :: "Segment list"
  fulfilled :: ShardTimeRanges

type_synonym IndexResults = "UnixNano \<rightharpoonup> IndexBlock"

definition NewIndexBlock :: "Time \<Rightarrow> Segment list \<Rightarrow> ShardTimeRanges option \<Rightarrow> IndexBlock" where
  "NewIndexBlock start segs ful =
     \<lparr>blockStart = start, segments = segs,
      fulfilled = (case ful of None \<Rightarrow> NoRanges | Some f \<Rightarrow> f)\<rparr>"

definition Merged :: "IndexBlock \<Rightarrow> IndexBlock \<Rightarrow> IndexBlock" where
  "Merged b other =
     (let r = b;
          r = (if length (segments other) > 0
               then r\<lparr>segments := segments r @ segments other\<rparr> else r);
          r = (if \<not> IsEmpty (fulfilled other)
               then r\<lparr>fulfilled := AddRanges (Copy (fulfilled b)) (fulfilled other)\<rparr> else r)
      in r)"

definition Add :: "IndexResults \<Rightarrow> IndexBlock \<Rightarrow> IndexResults" where
  "Add r block =
     (if IsZero (blockStart block) then r
      else
        let k = ToUnixNano (blockStart block)
        in (case r k of
              None \<Rightarrow> r(k \<mapsto> block)
            | Some existing \<Rightarrow> r(k \<mapsto> Merged existing block)))"

definition covered :: "Ranges \<Rightarrow> Time \<Rightarrow> bool" where
  "covered rs t = (\<exists>r \<in> set rs. in_range r t)"

fun canon :: "Ranges \<Rightarrow> bool" where
  "canon [] = True"
| "canon [r] = (fst r < snd r)"
| "canon (r # x # xs) = (fst r < snd r \<and> snd r < fst x \<and> canon (x # xs))"

lemma covered_Nil [simp]: "covered [] t = False"
  by (simp add: covered_def)

lemma covered_Cons [simp]: "covered (r # rs) t = (in_range r t \<or> covered rs t)"
  by (simp add: covered_def)

lemma AddRange_within:
  "range_within r w \<Longrightarrow> \<forall>x \<in> set xs. range_within x w \<Longrightarrow>
   \<forall>y \<in> set (AddRange r xs). range_within y w"
proof (induction xs arbitrary: r)
  case Nil
  then show ?case by simp
next
  case (Cons x xs)
  have xs: "\<forall>x \<in> set xs. range_within x w" and x: "range_within x w"
    using Cons.prems(2) by simp_all
  have "range_within (min (fst r) (fst x), max (snd r) (snd x)) w"
    using Cons.prems(1) x by (simp add: range_within_def)
  then have m: "\<forall>y \<in> set (AddRange (min (fst r) (fst x), max (snd r) (snd x)) xs). range_within y w"
    using xs by (rule Cons.IH)
  have k: "\<forall>y \<in> set (AddRange r xs). range_within y w"
    using Cons.prems(1) xs by (rule Cons.IH)
  show ?case using m k x xs Cons.prems(1) by simp
qed

lemma Ranges_AddRanges_within:
  "\<forall>x \<in> set rs. range_within x w \<Longrightarrow> \<forall>x \<in> set other. range_within x w \<Longrightarrow>
   \<forall>y \<in> set (Ranges_AddRanges rs other). range_within y w"
  unfolding Ranges_AddRanges_def
proof (induction other arbitrary: rs)
  case Nil
  then show ?case by simp
next
  case (Cons q other)
  have q: "range_within q w" and other: "\<forall>x \<in> set other. range_within x w"
    using Cons.prems(2) by simp_all
  have a: "\<forall>y \<in> set (AddRange q rs). range_within y w"
    using q Cons.prems(1) by (rule AddRange_within)
  have "\<forall>y \<in> set (if fst q < snd q then AddRange q rs else rs). range_within y w"
  proof (cases "fst q < snd q")
    case True
    then show ?thesis using a by simp
  next
    case False
    then show ?thesis using Cons.prems(1) by simp
  qed
  then have "\<forall>y \<in> set (fold (\<lambda>r acc. if fst r < snd r then AddRange r acc else acc) other
      (if fst q < snd q then AddRange q rs else rs)). range_within y w"
    using other by (rule Cons.IH)
  then show ?case by simp
qed

lemma covered_AddRange:
  "covered (AddRange r xs) t = (in_range r t \<or> covered xs t)"
proof (induction xs arbitrary: r)
  case Nil
  then show ?case by simp
next
  case (Cons x xs)
  show ?case
  proof (cases "snd r < fst x")
    case True
    then show ?thesis by simp
  next
    case nb: False
    show ?thesis
    proof (cases "snd x < fst r")
      case True
      then show ?thesis using nb by (auto simp: Cons.IH)
    next
      case False
      have "in_range (min (fst r) (fst x), max (snd r) (snd x)) t = (in_range r t \<or> in_range x t)"
        using nb False by (auto simp: in_range_def)
      then show ?thesis using nb False by (auto simp: Cons.IH)
    qed
  qed
qed

lemma covered_Ranges_AddRanges:
  "covered (Ranges_AddRanges rs other) t = (covered rs t \<or> covered other t)"
  unfolding Ranges_AddRanges_def
proof (induction other arbitrary: rs)
  case Nil
  then show ?case by simp
next
  case (Cons q other)
  have "\<not> fst q < snd q \<Longrightarrow> \<not> in_range q t" by (auto simp: in_range_def)
  then show ?case by (auto simp: Cons.IH covered_AddRange)
qed

lemma canon_Cons:
  "canon (x # ys) = (fst x < snd x \<and> canon ys \<and> (\<forall>y \<in> set ys. snd x < fst y))"
proof (induction ys arbitrary: x)
  case Nil
  then show ?case by simp
next
  case (Cons y ys)
  show ?case using Cons.IH [of y] by auto
qed

lemma AddRange_lower:
  "lb < fst r \<Longrightarrow> \<forall>x \<in> set xs. lb < fst x \<Longrightarrow> \<forall>y \<in> set (AddRange r xs). lb < fst y"
proof (induction xs arbitrary: r)
  case Nil
  then show ?case by simp
next
  case (Cons x xs)
  have xs: "\<forall>x \<in> set xs. lb < fst x" and x: "lb < fst x"
    using Cons.prems(2) by simp_all
  have "lb < fst (min (fst r) (fst x), max (snd r) (snd x))"
    using Cons.prems(1) x by simp
  then have m: "\<forall>y \<in> set (AddRange (min (fst r) (fst x), max (snd r) (snd x)) xs). lb < fst y"
    using xs by (rule Cons.IH)
  have k: "\<forall>y \<in> set (AddRange r xs). lb < fst y"
    using Cons.prems(1) xs by (rule Cons.IH)
  show ?case using m k x xs Cons.prems(1) by simp
qed

lemma canon_AddRange:
  "canon xs \<Longrightarrow> fst r < snd r \<Longrightarrow> canon (AddRange r xs)"
proof (induction xs arbitrary: r)
  case Nil
  then show ?case by simp
next
  case (Cons x xs)
  have cx: "fst x < snd x" "canon xs" "\<forall>y \<in> set xs. snd x < fst y"
    using Cons.prems(1) by (simp_all add: canon_Cons)
  show ?case
  proof (cases "snd r < fst x")
    case True
    then show ?thesis using Cons.prems cx by (simp add: canon_Cons [of r] canon_Cons [of x])
  next
    case nb: False
    show ?thesis
    proof (cases "snd x < fst r")
      case True
      have "canon (AddRange r xs)" using Cons.IH cx Cons.prems by simp
      moreover have "\<forall>y \<in> set (AddRange r xs). snd x < fst y"
        using AddRange_lower [of "snd x" r xs] True cx by simp
      ultimately show ?thesis using nb True cx by (simp add: canon_Cons [of x])
    next
      case False
      have "canon (AddRange (min (fst r) (fst x), max (snd r) (snd x)) xs)"
        using Cons.IH [of "(min (fst r) (fst x), max (snd r) (snd x))"] cx Cons.prems by simp
      then show ?thesis using nb False by simp
    qed
  qed
qed

lemma canon_Ranges_AddRanges:
  "canon rs \<Longrightarrow> canon (Ranges_AddRanges rs other)"
  unfolding Ranges_AddRanges_def
  by (induction other arbitrary: rs) (simp_all add: canon_AddRange)

lemma canon_unique:
  "canon xs \<Longrightarrow> canon ys \<Longrightarrow> (\<forall>t. covered xs t = covered ys t) \<Longrightarrow> xs = ys"
proof (induction xs arbitrary: ys)
  case Nil
  show ?case
  proof (cases ys)
    case Nil
    then show ?thesis by simp
  next
    case (Cons y ys')
    then have "in_range y (fst y)" using Nil.prems by (simp add: canon_Cons in_range_def)
    then show ?thesis using Nil.prems(3) Cons by auto
  qed
next
  case (Cons x xs)
  have cx: "fst x < snd x" "canon xs" "\<forall>z \<in> set xs. snd x < fst z"
    using Cons.prems(1) by (simp_all add: canon_Cons)
  have xin: "in_range x (fst x)" using cx by (simp add: in_range_def)
  show ?case
  proof (cases ys)
    case Nil
    then show ?thesis using Cons.prems(3) xin by auto
  next
    case ys: (Cons y ys')
    have cy: "fst y < snd y" "canon ys'" "\<forall>z \<in> set ys'. snd y < fst z"
      using Cons.prems(2) ys by (simp_all add: canon_Cons)
    have eq: "\<And>t. (in_range x t \<or> covered xs t) = (in_range y t \<or> covered ys' t)"
      using Cons.prems(3) ys by simp
    have lowx: "\<And>t. in_range x t \<or> covered xs t \<Longrightarrow> fst x \<le> t"
      using cx by (auto simp: in_range_def covered_def)
    have lowy: "\<And>t. in_range y t \<or> covered ys' t \<Longrightarrow> fst y \<le> t"
      using cy by (auto simp: in_range_def covered_def)
    have yin: "in_range y (fst y)" using cy by (simp add: in_range_def)
    have "fst y \<le> fst x" using lowy [of "fst x"] eq [of "fst x"] xin by simp
    moreover have "fst x \<le> fst y" using lowx [of "fst y"] eq [of "fst y"] yin by simp
    ultimately have fe: "fst x = fst y" by simp
    have nx: "\<not> (in_range x (snd x) \<or> covered xs (snd x))"
      using cx by (auto simp: in_range_def covered_def)
    have ny: "\<not> (in_range y (snd y) \<or> covered ys' (snd y))"
      using cy by (auto simp: in_range_def covered_def)
    have "\<not> snd x < snd y"
    proof
      assume "snd x < snd y"
      then have "in_range y (snd x)" using fe cx by (simp add: in_range_def)
      then show False using eq [of "snd x"] nx by simp
    qed
    moreover have "\<not> snd y < snd x"
    proof
      assume "snd y < snd x"
      then have "in_range x (snd y)" using fe cy by (simp add: in_range_def)
      then show False using eq [of "snd y"] ny by simp
    qed
    ultimately have se: "snd x = snd y" by simp
    have xy: "x = y" using fe se by (simp add: prod_eq_iff)
    have dx: "\<And>t. covered xs t \<Longrightarrow> \<not> in_range x t"
      using cx by (auto simp: in_range_def covered_def)
    have dy: "\<And>t. covered ys' t \<Longrightarrow> \<not> in_range y t"
      using cy by (auto simp: in_range_def covered_def)
    have "\<forall>t. covered xs t = covered ys' t"
    proof
      fix t
      show "covered xs t = covered ys' t"
        using eq [of t] dx [of t] dy [of t] xy by auto
    qed
    then have "xs = ys'" using Cons.IH [OF cx(2) cy(2)] by simp
    then show ?thesis using xy ys by simp
  qed
qed

lemma Ranges_AddRanges_commute:
  assumes "canon a" and "canon b"
  shows "Ranges_AddRanges a b = Ranges_AddRanges b a"
proof (rule canon_unique)
  show "canon (Ranges_AddRanges a b)" using assms(1) by (rule canon_Ranges_AddRanges)
  show "canon (Ranges_AddRanges b a)" using assms(2) by (rule canon_Ranges_AddRanges)
  show "\<forall>t. covered (Ranges_AddRanges a b) t = covered (Ranges_AddRanges b a) t"
    by (auto simp: covered_Ranges_AddRanges)
qed

lemma Ranges_AddRanges_Nil [simp]: "Ranges_AddRanges rs [] = rs"
  by (simp add: Ranges_AddRanges_def)

lemma Ranges_AddRanges_Nil_left: "canon rs \<Longrightarrow> Ranges_AddRanges [] rs = rs"
  using Ranges_AddRanges_commute [of "[]" rs] by simp

text \<open>
  \<open>AddResults\<close> ranges over the map \<open>other\<close>; Go leaves the order of that iteration
  open, so the order is a parameter: a list \<open>ks\<close> of the keys of \<open>other\<close>.
\<close>

definition AddResults :: "IndexResults \<Rightarrow> IndexResults \<Rightarrow> UnixNano list \<Rightarrow> IndexResults" where
  "AddResults r other ks =
     fold (\<lambda>k acc. case other k of None \<Rightarrow> acc | Some block \<Rightarrow> Add acc block) ks r"

datatype error = RangeOutOfBlock | AllocError string

record IndexOptions =
  BlockSize :: Duration

text \<open>
  \<open>opts.IndexMutableSegmentAllocator()\<close> is a function without arguments that returns
  a new mutable segment or an error. \<open>GetOrAddSegment\<close> calls it at most once, so the
  options record holds the outcome of that call: the error, or the identity of the new
  segment.
\<close>

record Options =
  IndexMutableSegmentAllocator :: "error + nat"

text \<open>The loop over the segments of the block: the first one that is mutable.\<close>

fun first_mutable :: "Segment list \<Rightarrow> Segment option" where
  "first_mutable [] = None"
| "first_mutable (MutableSegment m # segs) = Some (MutableSegment m)"
| "first_mutable (ImmutableSegment m # segs) = first_mutable segs"

definition GetOrAddSegment ::
  "IndexResults \<Rightarrow> Time \<Rightarrow> IndexOptions \<Rightarrow> Options \<Rightarrow> IndexResults \<times> (error + Segment)" where
  "GetOrAddSegment r t idxopts opts =
     (let start = Truncate t (BlockSize idxopts);
          blockStartNanos = ToUnixNano start;
          (block, r1) =
            (case r blockStartNanos of
               None \<Rightarrow> (let block = NewIndexBlock start [] None
                        in (block, r(blockStartNanos \<mapsto> block)))
             | Some block \<Rightarrow> (block, r))
      in case first_mutable (segments block) of
           Some mutable \<Rightarrow> (r1, Inr mutable)
         | None \<Rightarrow>
             (case IndexMutableSegmentAllocator opts of
                Inl err \<Rightarrow> (r1, Inl err)
              | Inr m \<Rightarrow>
                  (let mutable = MutableSegment m;
                       segs = [mutable]
                   in (r1(blockStartNanos \<mapsto> Merged block (NewIndexBlock start segs None)),
                       Inr mutable))))"

definition MarkFulfilled ::
  "IndexResults \<Rightarrow> Time \<Rightarrow> ShardTimeRanges \<Rightarrow> IndexOptions \<Rightarrow> IndexResults \<times> error option" where
  "MarkFulfilled r t ful idxopts =
     (let start = Truncate t (BlockSize idxopts);
          blockStartNanos = ToUnixNano start;
          blockRange = (start, start + BlockSize idxopts);
          (min_t, max_t) = MinMax ful
      in if min_t < fst blockRange \<or> max_t > snd blockRange then (r, Some RangeOutOfBlock)
         else
           let (block, r1) =
                 (case r blockStartNanos of
                    None \<Rightarrow> (let block = NewIndexBlock start [] None
                             in (block, r(blockStartNanos \<mapsto> block)))
                  | Some block \<Rightarrow> (block, r))
           in (r1(blockStartNanos \<mapsto> Merged block (NewIndexBlock start [] (Some ful))), None))"

record indexBootstrapResult =
  results :: IndexResults
  unfulfilled :: ShardTimeRanges

definition NewIndexBootstrapResult :: indexBootstrapResult where
  "NewIndexBootstrapResult = \<lparr>results = Map.empty, unfulfilled = NoRanges\<rparr>"

text \<open>
  The two loops that add up \<open>len(ir.Segments())\<close> over a result's blocks, along a list
  of its keys.
\<close>

definition segmentCount :: "IndexResults \<Rightarrow> UnixNano list \<Rightarrow> nat" where
  "segmentCount r ks =
     fold (\<lambda>k size. case r k of None \<Rightarrow> size | Some ir \<Rightarrow> size + length (segments ir)) ks 0"

text \<open>
  An interface value that is nil is \<open>None\<close>. \<open>ksi\<close> and \<open>ksj\<close> are the orders in which
  the blocks of \<open>i\<close> and of \<open>j\<close> are ranged over. The result that is returned is the
  operand that was mutated.
\<close>

definition MergedIndexBootstrapResult ::
  "UnixNano list \<Rightarrow> UnixNano list \<Rightarrow> indexBootstrapResult option \<Rightarrow> indexBootstrapResult option
     \<Rightarrow> indexBootstrapResult option" where
  "MergedIndexBootstrapResult ksi ksj i j =
     (case i of
        None \<Rightarrow> j
      | Some ri \<Rightarrow>
          (case j of
             None \<Rightarrow> i
           | Some rj \<Rightarrow>
               (let sizeI = segmentCount (results ri) ksi;
                    sizeJ = segmentCount (results rj) ksj
                in if sizeI \<ge> sizeJ
                   then Some (ri\<lparr>results := AddResults (results ri) (results rj) ksj,
                                 unfulfilled := AddRanges (unfulfilled ri) (unfulfilled rj)\<rparr>)
                   else Some (rj\<lparr>results := AddResults (results rj) (results ri) ksi,
                                 unfulfilled := AddRanges (unfulfilled rj) (unfulfilled ri)\<rparr>))))"

text \<open>
  The invariant of a \<open>ShardTimeRanges\<close> value that the spec states: the ranges of every
  shard are non-empty, in ascending order, disjoint and not adjacent (adjacent ranges
  are coalesced). The instants a value covers for a shard are those of its ranges.
\<close>

definition wf_ranges :: "ShardTimeRanges \<Rightarrow> bool" where
  "wf_ranges m = (\<forall>shard. canon (m shard))"

definition covers :: "ShardTimeRanges \<Rightarrow> 32 word \<Rightarrow> Time \<Rightarrow> bool" where
  "covers m shard t = covered (m shard) t"

text \<open>A value with ranges for one shard only.\<close>

definition one_shard :: "32 word \<Rightarrow> Ranges \<Rightarrow> ShardTimeRanges" where
  "one_shard s rs = NoRanges(s := rs)"

lemma AddRanges_empty: "IsEmpty other \<Longrightarrow> AddRanges m other = m"
  by (rule ext) (simp add: AddRanges_def IsEmpty_def)

lemma AddRanges_NoRanges [simp]: "AddRanges m NoRanges = m"
  by (rule AddRanges_empty) (simp add: IsEmpty_def NoRanges_def)

lemma IsEmpty_NoRanges [simp]: "IsEmpty NoRanges"
  by (simp add: IsEmpty_def NoRanges_def)

lemma IsEmpty_one_shard [simp]: "IsEmpty (one_shard s rs) = (rs = [])"
  by (auto simp: IsEmpty_def NoRanges_def one_shard_def)

lemma AddRanges_one_shard:
  "AddRanges (one_shard s xs) (one_shard s ys) = one_shard s (Ranges_AddRanges xs ys)"
  by (rule ext) (simp add: AddRanges_def one_shard_def NoRanges_def)

lemma all_ranges_one_shard [simp]: "all_ranges (one_shard s rs) = set rs"
  by (auto simp: all_ranges_def one_shard_def NoRanges_def split: if_splits)

lemma all_ranges_NoRanges [simp]: "all_ranges NoRanges = {}"
  by (simp add: all_ranges_def NoRanges_def)

lemma finite_all_ranges [simp]: "finite (all_ranges m)"
  by (simp add: all_ranges_def)

lemma all_ranges_empty_iff: "all_ranges m = {} \<longleftrightarrow> IsEmpty m"
  by (auto simp: all_ranges_def IsEmpty_def)

lemma wf_ranges_NoRanges [simp]: "wf_ranges NoRanges"
  by (simp add: wf_ranges_def NoRanges_def)



lemma covers_AddRanges:
  "covers (AddRanges a b) shard t = (covers a shard t \<or> covers b shard t)"
  by (simp add: covers_def AddRanges_def covered_Ranges_AddRanges)

lemma Merged_blockStart [simp]: "blockStart (Merged a b) = blockStart a"
  by (simp add: Merged_def Let_def)

lemma Merged_segments [simp]: "segments (Merged a b) = segments a @ segments b"
  by (simp add: Merged_def Let_def)

lemma Merged_fulfilled: "fulfilled (Merged a b) = AddRanges (fulfilled a) (fulfilled b)"
  by (simp add: Merged_def Let_def Copy_def AddRanges_empty)

text \<open>
  Claim C4. For index blocks \<open>a\<close> and \<open>b\<close> with equal block starts, \<open>Merged a b\<close> has
  the block start of \<open>a\<close>, the segments of \<open>a\<close> followed by those of \<open>b\<close> (every
  segment kept, so the lengths add up), and as fulfilled ranges the union of those of
  \<open>a\<close> and of \<open>b\<close>: the value \<open>AddRanges\<close> gives, which covers an instant of a shard
  exactly when \<open>a\<close> or \<open>b\<close> covers it.
\<close>

theorem Merged_contract:
  assumes "blockStart a = blockStart b"
  shows "blockStart (Merged a b) = blockStart a
       \<and> blockStart (Merged a b) = blockStart b
       \<and> segments (Merged a b) = segments a @ segments b
       \<and> length (segments (Merged a b)) = length (segments a) + length (segments b)
       \<and> fulfilled (Merged a b) = AddRanges (fulfilled a) (fulfilled b)
       \<and> (\<forall>shard t. covers (fulfilled (Merged a b)) shard t
              = (covers (fulfilled a) shard t \<or> covers (fulfilled b) shard t))"
  using assms by (simp add: Merged_fulfilled covers_AddRanges)

text \<open>
  The scenario of the spec: two blocks starting at \<open>7200\<close>, one segment each, fulfilled
  \<open>[7200, 7800)\<close> and \<open>[7500, 8100)\<close> for shard 1.
\<close>

definition block_A :: IndexBlock where
  "block_A = NewIndexBlock 7200 [ImmutableSegment 1] (Some (one_shard 1 [(7200, 7800)]))"

definition block_B :: IndexBlock where
  "block_B = NewIndexBlock 7200 [ImmutableSegment 2] (Some (one_shard 1 [(7500, 8100)]))"

theorem Merged_contract_witness:
  "blockStart block_A = blockStart block_B
   \<and> blockStart (Merged block_A block_B) = 7200
   \<and> segments (Merged block_A block_B) = [ImmutableSegment 1, ImmutableSegment 2]
   \<and> fulfilled (Merged block_A block_B) = one_shard 1 [(7200, 8100)]
   \<and> covers (fulfilled (Merged block_A block_B)) 1 7900"
proof -
  have eq: "blockStart block_A = blockStart block_B"
    by (simp add: block_A_def block_B_def NewIndexBlock_def)
  have u: "AddRanges (fulfilled block_A) (fulfilled block_B) = one_shard 1 [(7200, 8100)]"
    by (simp add: block_A_def block_B_def NewIndexBlock_def AddRanges_one_shard
        Ranges_AddRanges_def)
  have c: "covers (one_shard 1 [(7200, 8100)]) 1 7900"
    by (simp add: covers_def one_shard_def in_range_def)
  show ?thesis
    using Merged_contract [OF eq] u c
    by (simp add: block_A_def block_B_def NewIndexBlock_def)
qed





text \<open>
  Claim C8. \<open>Add\<close> leaves the results as they are when the start of the block is the
  zero instant. Otherwise, with \<open>k\<close> the key of the block's start: when the results have
  no entry at \<open>k\<close> the block becomes the entry, and when they have the entry \<open>existing\<close>
  it is replaced by \<open>Merged existing block\<close>; no other key changes.
\<close>

theorem Add_contract:
  "(IsZero (blockStart block) \<longrightarrow> Add r block = r)
   \<and> (\<not> IsZero (blockStart block) \<longrightarrow>
        (r (ToUnixNano (blockStart block)) = None \<longrightarrow>
           Add r block = r(ToUnixNano (blockStart block) \<mapsto> block))
        \<and> (\<forall>existing. r (ToUnixNano (blockStart block)) = Some existing \<longrightarrow>
             Add r block = r(ToUnixNano (blockStart block) \<mapsto> Merged existing block))
        \<and> (\<forall>k. k \<noteq> ToUnixNano (blockStart block) \<longrightarrow> Add r block k = r k))"
  by (auto simp: Add_def Let_def split: option.splits)

theorem Add_contract_witness:
  "Add Map.empty (NewIndexBlock 0 [ImmutableSegment 1] None) = Map.empty
   \<and> Add Map.empty block_A = [ToUnixNano 7200 \<mapsto> block_A]
   \<and> Add [ToUnixNano 7200 \<mapsto> block_A] block_B = [ToUnixNano 7200 \<mapsto> Merged block_A block_B]
   \<and> segments (Merged block_A block_B) = [ImmutableSegment 1, ImmutableSegment 2]"
proof -
  have z: "IsZero (blockStart (NewIndexBlock 0 [ImmutableSegment 1] None))"
    by (simp add: IsZero_def NewIndexBlock_def)
  have a: "\<not> IsZero (blockStart block_A)" "blockStart block_A = 7200"
    by (simp_all add: IsZero_def NewIndexBlock_def block_A_def)
  have b: "\<not> IsZero (blockStart block_B)" "blockStart block_B = 7200"
    by (simp_all add: IsZero_def NewIndexBlock_def block_B_def)
  have s: "segments (Merged block_A block_B) = [ImmutableSegment 1, ImmutableSegment 2]"
    by (simp add: block_A_def block_B_def NewIndexBlock_def)
  have 1: "Add Map.empty (NewIndexBlock 0 [ImmutableSegment 1] None) = Map.empty"
    using Add_contract [where block = "NewIndexBlock 0 [ImmutableSegment 1] None" and r = Map.empty] z
    by simp
  have 2: "Add Map.empty block_A = [ToUnixNano 7200 \<mapsto> block_A]"
    using Add_contract [where block = block_A and r = Map.empty] a by simp
  have 3: "Add [ToUnixNano 7200 \<mapsto> block_A] block_B = [ToUnixNano 7200 \<mapsto> Merged block_A block_B]"
    using Add_contract [where block = block_B and r = "[ToUnixNano 7200 \<mapsto> block_A]"] b by simp
  show ?thesis using 1 2 3 s by simp
qed

text \<open>
  Names for what \<open>GetOrAddSegment\<close> and \<open>MarkFulfilled\<close> compute first: the window of
  the index block of \<open>t\<close>, from \<open>t\<close> truncated to the block size to one block size
  later; the key of that block; and the block the call works on, which is the entry at
  the key or, without one, a new block without segments and fulfilled ranges.
\<close>

definition blockWindow :: "Time \<Rightarrow> IndexOptions \<Rightarrow> Range" where
  "blockWindow t idxopts =
     (Truncate t (BlockSize idxopts), Truncate t (BlockSize idxopts) + BlockSize idxopts)"

definition blockKey :: "Time \<Rightarrow> IndexOptions \<Rightarrow> UnixNano" where
  "blockKey t idxopts = ToUnixNano (Truncate t (BlockSize idxopts))"

definition entryOrNew :: "IndexResults \<Rightarrow> Time \<Rightarrow> IndexOptions \<Rightarrow> IndexBlock" where
  "entryOrNew r t idxopts =
     (case r (blockKey t idxopts) of
        None \<Rightarrow> NewIndexBlock (Truncate t (BlockSize idxopts)) [] None
      | Some block \<Rightarrow> block)"

lemma MarkFulfilled_eq:
  "MarkFulfilled r t f idxopts =
     (if range_within (MinMax f) (blockWindow t idxopts)
      then (r(blockKey t idxopts \<mapsto>
               Merged (entryOrNew r t idxopts)
                 (NewIndexBlock (Truncate t (BlockSize idxopts)) [] (Some f))), None)
      else (r, Some RangeOutOfBlock))"
  by (cases "MinMax f")
     (auto simp: MarkFulfilled_def Let_def range_within_def blockWindow_def blockKey_def
        entryOrNew_def split: option.splits)

lemma MinMax_within:
  assumes "\<not> IsEmpty f"
  shows "range_within (MinMax f) w = (\<forall>rg \<in> all_ranges f. range_within rg w)"
proof -
  have ne: "all_ranges f \<noteq> {}" using assms by (simp add: all_ranges_empty_iff)
  have "fst w \<le> Min (fst ` all_ranges f) \<longleftrightarrow> (\<forall>rg \<in> all_ranges f. fst w \<le> fst rg)"
    using ne by (simp add: Min_ge_iff)
  moreover have "Max (snd ` all_ranges f) \<le> snd w \<longleftrightarrow> (\<forall>rg \<in> all_ranges f. snd rg \<le> snd w)"
    using ne by (simp add: Max_le_iff)
  ultimately show ?thesis by (auto simp: range_within_def MinMax_def)
qed

lemma all_ranges_AddRanges_within:
  assumes "\<forall>rg \<in> all_ranges a. range_within rg w" and "\<forall>rg \<in> all_ranges b. range_within rg w"
  shows "\<forall>rg \<in> all_ranges (AddRanges a b). range_within rg w"
proof
  fix rg assume "rg \<in> all_ranges (AddRanges a b)"
  then obtain shard where rg: "rg \<in> set (Ranges_AddRanges (a shard) (b shard))"
    by (auto simp: all_ranges_def AddRanges_def)
  have "\<forall>x \<in> set (a shard). range_within x w" using assms(1) by (auto simp: all_ranges_def)
  moreover have "\<forall>x \<in> set (b shard). range_within x w" using assms(2) by (auto simp: all_ranges_def)
  ultimately have "\<forall>y \<in> set (Ranges_AddRanges (a shard) (b shard)). range_within y w"
    by (rule Ranges_AddRanges_within)
  then show "range_within rg w" using rg by simp
qed

text \<open>
  Claim C3. For non-empty \<open>f\<close>, \<open>MarkFulfilled\<close> returns the error exactly when the range
  \<open>MinMax f\<close> does not lie within the window of the block of \<open>t\<close>, which is exactly when
  some range of \<open>f\<close> does not. Ranges and the window are half-open, so a range lies
  within the window when it starts no earlier and ends no later than the window: ranges
  that fill the whole block are accepted. \<open>MarkFulfilled\<close> returns no other error; with the error the results are
  unchanged; without it the entry at the key of the block is the block the call worked
  on with \<open>f\<close> merged into its fulfilled ranges, its start and segments as before, and
  no other entry changes.
\<close>

theorem MarkFulfilled_contract:
  assumes "\<not> IsEmpty f"
  shows "(snd (MarkFulfilled r t f idxopts) = Some RangeOutOfBlock
            \<longleftrightarrow> \<not> range_within (MinMax f) (blockWindow t idxopts))
       \<and> (snd (MarkFulfilled r t f idxopts) = Some RangeOutOfBlock
            \<longleftrightarrow> (\<exists>rg \<in> all_ranges f. \<not> range_within rg (blockWindow t idxopts)))
       \<and> (snd (MarkFulfilled r t f idxopts) = None
            \<or> snd (MarkFulfilled r t f idxopts) = Some RangeOutOfBlock)
       \<and> (snd (MarkFulfilled r t f idxopts) = Some RangeOutOfBlock
            \<longrightarrow> fst (MarkFulfilled r t f idxopts) = r)
       \<and> (snd (MarkFulfilled r t f idxopts) = None \<longrightarrow>
            (\<exists>b. fst (MarkFulfilled r t f idxopts) (blockKey t idxopts) = Some b
                \<and> fulfilled b = AddRanges (fulfilled (entryOrNew r t idxopts)) f
                \<and> segments b = segments (entryOrNew r t idxopts)
                \<and> blockStart b = blockStart (entryOrNew r t idxopts)
                \<and> (\<forall>shard x. covers (fulfilled b) shard x
                      = (covers (fulfilled (entryOrNew r t idxopts)) shard x \<or> covers f shard x)))
            \<and> (\<forall>k. k \<noteq> blockKey t idxopts \<longrightarrow> fst (MarkFulfilled r t f idxopts) k = r k))"
proof (cases "range_within (MinMax f) (blockWindow t idxopts)")
  case True
  then have "\<not> (\<exists>rg \<in> all_ranges f. \<not> range_within rg (blockWindow t idxopts))"
    using MinMax_within [OF assms] by simp
  then show ?thesis using True
    by (simp add: MarkFulfilled_eq Merged_fulfilled covers_AddRanges NewIndexBlock_def)
next
  case False
  then have "\<exists>rg \<in> all_ranges f. \<not> range_within rg (blockWindow t idxopts)"
    using MinMax_within [OF assms] by simp
  then show ?thesis using False by (simp add: MarkFulfilled_eq)
qed

definition hourly :: IndexOptions where
  "hourly = \<lparr>BlockSize = 3600\<rparr>"

lemma MinMax_one_shard_single [simp]: "MinMax (one_shard s [rg]) = rg"
  by (simp add: MinMax_def)

theorem MarkFulfilled_contract_witness:
  "\<not> IsEmpty (one_shard 1 [(7199, 7800)])
   \<and> MarkFulfilled [blockKey 7200 hourly \<mapsto> block_A] 7200 (one_shard 1 [(7199, 7800)]) hourly
       = ([blockKey 7200 hourly \<mapsto> block_A], Some RangeOutOfBlock)
   \<and> \<not> IsEmpty (one_shard 1 [(7200, 10800)])
   \<and> snd (MarkFulfilled Map.empty 7200 (one_shard 1 [(7200, 10800)]) hourly) = None
   \<and> \<not> IsEmpty (one_shard 1 [(7500, 8100)])
   \<and> snd (MarkFulfilled [blockKey 7200 hourly \<mapsto> block_A] 7300 (one_shard 1 [(7500, 8100)]) hourly)
       = None
   \<and> map_option fulfilled
       (fst (MarkFulfilled [blockKey 7200 hourly \<mapsto> block_A] 7300 (one_shard 1 [(7500, 8100)]) hourly)
          (blockKey 7300 hourly))
       = Some (one_shard 1 [(7200, 8100)])"
proof -
  let ?r = "[blockKey 7200 hourly \<mapsto> block_A]"
  let ?bad = "one_shard 1 [(7199, 7800)]" and ?good = "one_shard 1 [(7500, 8100)]"
  have k: "blockKey 7300 hourly = blockKey 7200 hourly"
    by (simp add: blockKey_def hourly_def Truncate_def)
  have w: "blockWindow 7200 hourly = (7200, 10800)" "blockWindow 7300 hourly = (7200, 10800)"
    by (simp_all add: blockWindow_def hourly_def Truncate_def)
  have e: "entryOrNew ?r 7300 hourly = block_A"
    by (simp add: entryOrNew_def k)
  have u: "AddRanges (fulfilled block_A) ?good = one_shard 1 [(7200, 8100)]"
    by (simp add: block_A_def NewIndexBlock_def AddRanges_one_shard Ranges_AddRanges_def)
  have n1: "\<not> IsEmpty ?bad" and n2: "\<not> IsEmpty ?good" by simp_all
  have bad: "MarkFulfilled ?r 7200 ?bad hourly = (?r, Some RangeOutOfBlock)"
    using MarkFulfilled_contract [OF n1, of ?r 7200 hourly] w
    by (simp add: range_within_def prod_eq_iff)
  have good: "snd (MarkFulfilled ?r 7300 ?good hourly) = None"
    using MarkFulfilled_contract [OF n2, of ?r 7300 hourly] w
    by (auto simp: range_within_def)
  have n3: "\<not> IsEmpty (one_shard 1 [(7200, 10800)])" by simp
  have whole: "snd (MarkFulfilled Map.empty 7200 (one_shard 1 [(7200, 10800)]) hourly) = None"
    using MarkFulfilled_contract [OF n3, of Map.empty 7200 hourly] w
    by (auto simp: range_within_def)
  have ful: "map_option fulfilled (fst (MarkFulfilled ?r 7300 ?good hourly) (blockKey 7300 hourly))
       = Some (one_shard 1 [(7200, 8100)])"
    using MarkFulfilled_contract [OF n2, of ?r 7300 hourly] good e u by auto
  show ?thesis using n1 n2 n3 bad whole good ful by simp
qed

text \<open>
  Claim C6. When the fulfilled ranges of the entry at the key of the block of \<open>t\<close> all
  lie within the window of that block, then after a call of \<open>MarkFulfilled\<close> that
  succeeds the fulfilled ranges of the entry at that key all lie within the window.
\<close>

theorem MarkFulfilled_containment:
  assumes "snd (MarkFulfilled r t f idxopts) = None"
    and "\<forall>b. r (blockKey t idxopts) = Some b \<longrightarrow>
           (\<forall>rg \<in> all_ranges (fulfilled b). range_within rg (blockWindow t idxopts))"
  shows "\<exists>b'. fst (MarkFulfilled r t f idxopts) (blockKey t idxopts) = Some b'
           \<and> (\<forall>rg \<in> all_ranges (fulfilled b'). range_within rg (blockWindow t idxopts))"
proof -
  let ?w = "blockWindow t idxopts"
  let ?e = "entryOrNew r t idxopts"
  have ok: "range_within (MinMax f) ?w"
    using assms(1) by (simp add: MarkFulfilled_eq split: if_splits)
  have old: "\<forall>rg \<in> all_ranges (fulfilled ?e). range_within rg ?w"
    using assms(2) by (auto simp: entryOrNew_def NewIndexBlock_def split: option.splits)
  have new: "\<forall>rg \<in> all_ranges f. range_within rg ?w"
  proof (cases "IsEmpty f")
    case True
    then show ?thesis by (simp add: all_ranges_empty_iff [symmetric])
  next
    case False
    then show ?thesis using ok MinMax_within by simp
  qed
  have "\<forall>rg \<in> all_ranges (AddRanges (fulfilled ?e) f). range_within rg ?w"
    using old new by (rule all_ranges_AddRanges_within)
  then show ?thesis using ok
    by (simp add: MarkFulfilled_eq Merged_fulfilled NewIndexBlock_def)
qed

theorem MarkFulfilled_containment_witness:
  "snd (MarkFulfilled [blockKey 7200 hourly \<mapsto> block_A] 7300 (one_shard 1 [(7500, 8100)]) hourly) = None
   \<and> all_ranges (fulfilled block_A) = {(7200, 7800)}
   \<and> range_within (7200, 7800) (blockWindow 7300 hourly)
   \<and> (\<exists>b'. fst (MarkFulfilled [blockKey 7200 hourly \<mapsto> block_A] 7300 (one_shard 1 [(7500, 8100)]) hourly)
              (blockKey 7300 hourly) = Some b'
          \<and> all_ranges (fulfilled b') = {(7200, 8100)}
          \<and> range_within (7200, 8100) (blockWindow 7300 hourly))"
proof -
  let ?r = "[blockKey 7200 hourly \<mapsto> block_A]"
  let ?good = "one_shard 1 [(7500, 8100)]"
  have k: "blockKey 7300 hourly = blockKey 7200 hourly"
    by (simp add: blockKey_def hourly_def Truncate_def)
  have w: "blockWindow 7300 hourly = (7200, 10800)"
    by (simp add: blockWindow_def hourly_def Truncate_def)
  have a: "all_ranges (fulfilled block_A) = {(7200, 7800)}"
    by (simp add: block_A_def NewIndexBlock_def)
  have ok: "snd (MarkFulfilled ?r 7300 ?good hourly) = None"
    by (simp add: MarkFulfilled_eq w range_within_def)
  have pre: "\<forall>b. ?r (blockKey 7300 hourly) = Some b \<longrightarrow>
           (\<forall>rg \<in> all_ranges (fulfilled b). range_within rg (blockWindow 7300 hourly))"
    by (simp add: k a w range_within_def)
  have e: "entryOrNew ?r 7300 hourly = block_A"
    by (simp add: entryOrNew_def k)
  have u: "AddRanges (fulfilled block_A) ?good = one_shard 1 [(7200, 8100)]"
    by (simp add: block_A_def NewIndexBlock_def AddRanges_one_shard Ranges_AddRanges_def)
  obtain b' where b': "fst (MarkFulfilled ?r 7300 ?good hourly) (blockKey 7300 hourly) = Some b'"
      "\<forall>rg \<in> all_ranges (fulfilled b'). range_within rg (blockWindow 7300 hourly)"
    using MarkFulfilled_containment [OF ok pre] by blast
  have "fulfilled b' = one_shard 1 [(7200, 8100)]"
    using b'(1) u e by (simp add: MarkFulfilled_eq w range_within_def Merged_fulfilled NewIndexBlock_def k)
      (auto simp: Merged_fulfilled)
  then have "all_ranges (fulfilled b') = {(7200, 8100)}" by simp
  then show ?thesis using ok a b' w by (auto simp: range_within_def)
qed

definition isMutable :: "Segment \<Rightarrow> bool" where
  "isMutable s = (case s of MutableSegment m \<Rightarrow> True | ImmutableSegment m \<Rightarrow> False)"

text \<open>
  The invariant of index results that \<open>Add\<close>, \<open>GetOrAddSegment\<close> and \<open>MarkFulfilled\<close>
  keep by storing every block under the key of its own start: an entry's key is the Unix
  time of its block start, which fits an \<open>int64\<close>.
\<close>

definition wf_IndexResults :: "IndexResults \<Rightarrow> bool" where
  "wf_IndexResults r =
     (\<forall>k b. r k = Some b \<longrightarrow> representable (blockStart b) \<and> ToUnixNano (blockStart b) = k)"

lemma sint_ToUnixNano:
  assumes "representable t"
  shows "sint (ToUnixNano t) = t - unixEpoch"
proof -
  have "sint (word_of_int (t - unixEpoch) :: 64 word) = signed_take_bit 63 (t - unixEpoch)"
    by (subst sint_sbintrunc') simp
  also have "\<dots> = t - unixEpoch"
    using assms by (intro signed_take_bit_int_eq_self) (simp_all add: representable_def)
  finally show ?thesis by (simp only: ToUnixNano_def)
qed

lemma ToUnixNano_inj:
  assumes "representable a" and "representable b" and "ToUnixNano a = ToUnixNano b"
  shows "a = b"
proof -
  have "a - unixEpoch = sint (ToUnixNano a)"
    by (rule sint_ToUnixNano [OF assms(1), symmetric])
  also have "\<dots> = sint (ToUnixNano b)"
    by (simp only: assms(3))
  also have "\<dots> = b - unixEpoch"
    by (rule sint_ToUnixNano [OF assms(2)])
  finally show ?thesis by simp
qed

lemma first_mutable_Some:
  "first_mutable xs = Some s \<Longrightarrow>
   \<exists>pre post. xs = pre @ s # post \<and> isMutable s \<and> (\<forall>x \<in> set pre. \<not> isMutable x)"
proof (induction xs rule: first_mutable.induct)
  case 1
  then show ?case by simp
next
  case (2 m segs)
  then have "MutableSegment m # segs = [] @ s # segs \<and> isMutable s
      \<and> (\<forall>x \<in> set []. \<not> isMutable x)"
    by (auto simp: isMutable_def)
  then show ?case by blast
next
  case (3 m segs)
  then obtain pre post where p: "segs = pre @ s # post" "isMutable s" "\<forall>x \<in> set pre. \<not> isMutable x"
    by auto
  then have "ImmutableSegment m # segs = (ImmutableSegment m # pre) @ s # post
      \<and> (\<forall>x \<in> set (ImmutableSegment m # pre). \<not> isMutable x)"
    by (simp add: isMutable_def)
  then show ?case using p(2) by blast
qed

lemma first_mutable_None:
  "first_mutable xs = None \<longleftrightarrow> (\<forall>x \<in> set xs. \<not> isMutable x)"
  by (induction xs rule: first_mutable.induct) (simp_all add: isMutable_def)

lemma Merged_new_segment:
  "Merged block (NewIndexBlock start [s] None) = block\<lparr>segments := segments block @ [s]\<rparr>"
  by (simp add: Merged_def NewIndexBlock_def Let_def)

lemma GetOrAddSegment_eq:
  "GetOrAddSegment r t idxopts opts =
     (case first_mutable (segments (entryOrNew r t idxopts)) of
        Some s \<Rightarrow> (r(blockKey t idxopts \<mapsto> entryOrNew r t idxopts), Inr s)
      | None \<Rightarrow>
          (case IndexMutableSegmentAllocator opts of
             Inl e \<Rightarrow> (r(blockKey t idxopts \<mapsto> entryOrNew r t idxopts), Inl e)
           | Inr n \<Rightarrow>
               (r(blockKey t idxopts \<mapsto>
                    (entryOrNew r t idxopts)
                      \<lparr>segments := segments (entryOrNew r t idxopts) @ [MutableSegment n]\<rparr>),
                Inr (MutableSegment n))))"
proof (cases "r (blockKey t idxopts)")
  case None
  then show ?thesis
    by (simp add: GetOrAddSegment_def entryOrNew_def blockKey_def Let_def Merged_new_segment
        split: option.splits sum.splits)
next
  case (Some b)
  then have "r(blockKey t idxopts \<mapsto> b) = r" by (rule map_upd_triv)
  then show ?thesis using Some
    by (simp add: GetOrAddSegment_def entryOrNew_def blockKey_def [symmetric] Let_def
        Merged_new_segment split: option.splits sum.splits)
qed

lemma entryOrNew_existing:
  "first_mutable (segments (entryOrNew r t idxopts)) = Some s \<Longrightarrow>
   r (blockKey t idxopts) = Some (entryOrNew r t idxopts)"
  by (cases "r (blockKey t idxopts)") (simp_all add: entryOrNew_def NewIndexBlock_def)

lemma entryOrNew_start:
  assumes "wf_IndexResults r" and "representable (Truncate t (BlockSize idxopts))"
  shows "blockStart (entryOrNew r t idxopts) = Truncate t (BlockSize idxopts)"
proof (cases "r (blockKey t idxopts)")
  case None
  then show ?thesis by (simp add: entryOrNew_def NewIndexBlock_def)
next
  case (Some b)
  then have rb: "representable (blockStart b)"
    and kb: "ToUnixNano (blockStart b) = ToUnixNano (Truncate t (BlockSize idxopts))"
    using assms(1) by (auto simp: wf_IndexResults_def blockKey_def)
  have "blockStart b = Truncate t (BlockSize idxopts)"
    by (rule ToUnixNano_inj [OF rb assms(2) kb])
  then show ?thesis using Some by (simp add: entryOrNew_def)
qed

lemma wf_IndexResults_upd:
  assumes "wf_IndexResults r" and "representable (blockStart b)" and "ToUnixNano (blockStart b) = k"
  shows "wf_IndexResults (r(k \<mapsto> b))"
  using assms by (auto simp: wf_IndexResults_def)

text \<open>
  Claim C2. \<open>GetOrAddSegment\<close> works on the entry at the key of \<open>t\<close> truncated to the
  block size, a new block without segments when there is none. When the segments of
  that block have a mutable one, the entry existed, the results stay as they are and the
  first mutable segment is returned: only immutable segments stand before it. When they
  have none, the allocator is called: its error is returned, or its segment is put after
  all the segments of the block, the block is stored at the key with start and fulfilled
  ranges as they were, and the new segment is returned. A segment that is returned is
  mutable and is a segment of the entry at the key; no other entry changes; and for
  results that satisfy their invariant the start of that entry is \<open>t\<close> truncated to the
  block size, and the invariant is kept.
\<close>

theorem GetOrAddSegment_contract:
  "(\<forall>s. first_mutable (segments (entryOrNew r t idxopts)) = Some s \<longrightarrow>
        GetOrAddSegment r t idxopts opts = (r, Inr s)
        \<and> r (blockKey t idxopts) = Some (entryOrNew r t idxopts)
        \<and> (\<exists>pre post. segments (entryOrNew r t idxopts) = pre @ s # post
               \<and> isMutable s \<and> (\<forall>x \<in> set pre. \<not> isMutable x)))
   \<and> (first_mutable (segments (entryOrNew r t idxopts)) = None \<longrightarrow>
        (\<forall>x \<in> set (segments (entryOrNew r t idxopts)). \<not> isMutable x)
        \<and> (\<forall>n. IndexMutableSegmentAllocator opts = Inr n \<longrightarrow>
               GetOrAddSegment r t idxopts opts =
                 (r(blockKey t idxopts \<mapsto>
                      (entryOrNew r t idxopts)
                        \<lparr>segments := segments (entryOrNew r t idxopts) @ [MutableSegment n]\<rparr>),
                  Inr (MutableSegment n)))
        \<and> (\<forall>e. IndexMutableSegmentAllocator opts = Inl e \<longrightarrow>
               GetOrAddSegment r t idxopts opts =
                 (r(blockKey t idxopts \<mapsto> entryOrNew r t idxopts), Inl e)))
   \<and> (\<forall>s. snd (GetOrAddSegment r t idxopts opts) = Inr s \<longrightarrow>
          isMutable s
          \<and> (\<exists>b. fst (GetOrAddSegment r t idxopts opts) (blockKey t idxopts) = Some b
                 \<and> s \<in> set (segments b)
                 \<and> blockStart b = blockStart (entryOrNew r t idxopts)
                 \<and> fulfilled b = fulfilled (entryOrNew r t idxopts)
                 \<and> (wf_IndexResults r \<and> representable (Truncate t (BlockSize idxopts))
                       \<longrightarrow> blockStart b = Truncate t (BlockSize idxopts))))
   \<and> (\<forall>k. k \<noteq> blockKey t idxopts \<longrightarrow> fst (GetOrAddSegment r t idxopts opts) k = r k)
   \<and> (wf_IndexResults r \<and> representable (Truncate t (BlockSize idxopts))
         \<longrightarrow> wf_IndexResults (fst (GetOrAddSegment r t idxopts opts)))"
proof -
  let ?e = "entryOrNew r t idxopts" and ?k = "blockKey t idxopts"
  let ?G = "GetOrAddSegment r t idxopts opts"
  have startE: "wf_IndexResults r \<and> representable (Truncate t (BlockSize idxopts))
      \<Longrightarrow> blockStart ?e = Truncate t (BlockSize idxopts)"
    using entryOrNew_start by simp
  have keyE: "wf_IndexResults r \<and> representable (Truncate t (BlockSize idxopts))
      \<Longrightarrow> representable (blockStart ?e) \<and> ToUnixNano (blockStart ?e) = ?k"
    using startE by (simp add: blockKey_def)
  show ?thesis
  proof (cases "first_mutable (segments ?e)")
    case (Some s)
    have ex: "r ?k = Some ?e" using Some by (rule entryOrNew_existing)
    then have triv: "r(?k \<mapsto> ?e) = r" by (rule map_upd_triv)
    have G: "?G = (r, Inr s)" using Some triv by (simp add: GetOrAddSegment_eq)
    obtain pre post where p: "segments ?e = pre @ s # post" "isMutable s"
        "\<forall>x \<in> set pre. \<not> isMutable x"
      using first_mutable_Some [OF Some] by blast
    have mem: "s \<in> set (segments ?e)" using p(1) by simp
    have 1: "\<forall>s'. first_mutable (segments ?e) = Some s' \<longrightarrow>
        ?G = (r, Inr s') \<and> r ?k = Some ?e
        \<and> (\<exists>pre post. segments ?e = pre @ s' # post
               \<and> isMutable s' \<and> (\<forall>x \<in> set pre. \<not> isMutable x))"
      using Some G ex p by auto
    have 3: "\<forall>s'. snd ?G = Inr s' \<longrightarrow> isMutable s'
          \<and> (\<exists>b. fst ?G ?k = Some b \<and> s' \<in> set (segments b)
                 \<and> blockStart b = blockStart ?e \<and> fulfilled b = fulfilled ?e
                 \<and> (wf_IndexResults r \<and> representable (Truncate t (BlockSize idxopts))
                       \<longrightarrow> blockStart b = Truncate t (BlockSize idxopts)))"
      using G ex p(2) mem startE by auto
    have 4: "\<forall>k. k \<noteq> ?k \<longrightarrow> fst ?G k = r k" using G by simp
    have 5: "wf_IndexResults r \<and> representable (Truncate t (BlockSize idxopts))
         \<longrightarrow> wf_IndexResults (fst ?G)" using G by simp
    show ?thesis using 1 3 4 5 Some by simp
  next
    case None
    have imm: "\<forall>x \<in> set (segments ?e). \<not> isMutable x"
      using None by (simp add: first_mutable_None)
    show ?thesis
    proof (cases "IndexMutableSegmentAllocator opts")
      case (Inl e)
      have G: "?G = (r(?k \<mapsto> ?e), Inl e)" using None Inl by (simp add: GetOrAddSegment_eq)
      have 5: "wf_IndexResults r \<and> representable (Truncate t (BlockSize idxopts))
         \<longrightarrow> wf_IndexResults (fst ?G)"
        using G keyE wf_IndexResults_upd [of r ?e ?k] by auto
      show ?thesis using None imm Inl G 5 by simp
    next
      case (Inr n)
      let ?b = "?e\<lparr>segments := segments ?e @ [MutableSegment n]\<rparr>"
      have G: "?G = (r(?k \<mapsto> ?b), Inr (MutableSegment n))"
        using None Inr by (simp add: GetOrAddSegment_eq)
      have 5: "wf_IndexResults r \<and> representable (Truncate t (BlockSize idxopts))
         \<longrightarrow> wf_IndexResults (fst ?G)"
        using G keyE wf_IndexResults_upd [of r ?b ?k] by auto
      have 3: "\<forall>s'. snd ?G = Inr s' \<longrightarrow> isMutable s'
          \<and> (\<exists>b. fst ?G ?k = Some b \<and> s' \<in> set (segments b)
                 \<and> blockStart b = blockStart ?e \<and> fulfilled b = fulfilled ?e
                 \<and> (wf_IndexResults r \<and> representable (Truncate t (BlockSize idxopts))
                       \<longrightarrow> blockStart b = Truncate t (BlockSize idxopts)))"
        using G startE by (auto simp: isMutable_def)
      show ?thesis using None imm Inr G 3 5 by simp
    qed
  qed
qed

text \<open>
  An example with hourly index blocks: an instant 7300 units after the Unix epoch, the
  start 7200 of its block, blocks at that start, and an allocator that returns segment 5.
\<close>

definition start_ex :: Time where
  "start_ex = unixEpoch + 7200"

definition t_ex :: Time where
  "t_ex = unixEpoch + 7300"

definition blk_ex :: "Segment list \<Rightarrow> IndexBlock" where
  "blk_ex segs = NewIndexBlock start_ex segs None"

definition opts_ex :: Options where
  "opts_ex = \<lparr>IndexMutableSegmentAllocator = Inr 5\<rparr>"

lemma Truncate_t_ex: "Truncate t_ex (BlockSize hourly) = start_ex"
  by (simp add: Truncate_def t_ex_def start_ex_def hourly_def unixEpoch_def)

lemma representable_start_ex: "representable start_ex"
  by (simp add: representable_def start_ex_def)

lemma blockKey_t_ex: "blockKey t_ex hourly = ToUnixNano start_ex"
  by (simp add: blockKey_def Truncate_t_ex)

lemma wf_IndexResults_ex: "wf_IndexResults [ToUnixNano start_ex \<mapsto> blk_ex segs]"
  by (simp add: wf_IndexResults_def blk_ex_def NewIndexBlock_def representable_start_ex)

lemma entryOrNew_ex:
  "entryOrNew [ToUnixNano start_ex \<mapsto> blk_ex segs] t_ex hourly = blk_ex segs"
  "entryOrNew Map.empty t_ex hourly = blk_ex []"
  by (simp_all add: entryOrNew_def blockKey_t_ex Truncate_t_ex blk_ex_def)

theorem GetOrAddSegment_contract_witness:
  "wf_IndexResults [ToUnixNano start_ex \<mapsto> blk_ex [ImmutableSegment 1, MutableSegment 2, MutableSegment 3]]
   \<and> representable (Truncate t_ex (BlockSize hourly))
   \<and> GetOrAddSegment
        [ToUnixNano start_ex \<mapsto> blk_ex [ImmutableSegment 1, MutableSegment 2, MutableSegment 3]]
        t_ex hourly opts_ex
       = ([ToUnixNano start_ex \<mapsto> blk_ex [ImmutableSegment 1, MutableSegment 2, MutableSegment 3]],
          Inr (MutableSegment 2))
   \<and> GetOrAddSegment [ToUnixNano start_ex \<mapsto> blk_ex [ImmutableSegment 1]] t_ex hourly opts_ex
       = ([ToUnixNano start_ex \<mapsto> blk_ex [ImmutableSegment 1, MutableSegment 5]],
          Inr (MutableSegment 5))
   \<and> GetOrAddSegment Map.empty t_ex hourly opts_ex
       = ([ToUnixNano start_ex \<mapsto> blk_ex [MutableSegment 5]], Inr (MutableSegment 5))
   \<and> GetOrAddSegment Map.empty t_ex hourly \<lparr>IndexMutableSegmentAllocator = Inl (AllocError ''full'')\<rparr>
       = ([ToUnixNano start_ex \<mapsto> blk_ex []], Inl (AllocError ''full''))
   \<and> blockStart (blk_ex [ImmutableSegment 1, MutableSegment 5]) = Truncate t_ex (BlockSize hourly)"
proof -
  let ?r1 = "[ToUnixNano start_ex \<mapsto> blk_ex [ImmutableSegment 1, MutableSegment 2, MutableSegment 3]]"
  let ?r2 = "[ToUnixNano start_ex \<mapsto> blk_ex [ImmutableSegment 1]]"
  let ?bad = "\<lparr>IndexMutableSegmentAllocator = Inl (AllocError ''full'')\<rparr>"
  have seg: "\<And>segs. segments (blk_ex segs) = segs"
    by (simp add: blk_ex_def NewIndexBlock_def)
  have upd: "\<And>segs segs'. (blk_ex segs)\<lparr>segments := segs'\<rparr> = blk_ex segs'"
    by (simp add: blk_ex_def NewIndexBlock_def)
  have w: "wf_IndexResults ?r1" by (rule wf_IndexResults_ex)
  have rp: "representable (Truncate t_ex (BlockSize hourly))"
    by (simp add: Truncate_t_ex representable_start_ex)
  have 1: "GetOrAddSegment ?r1 t_ex hourly opts_ex = (?r1, Inr (MutableSegment 2))"
    using GetOrAddSegment_contract [of ?r1 t_ex hourly opts_ex]
    by (simp add: entryOrNew_ex seg)
  have 2: "GetOrAddSegment ?r2 t_ex hourly opts_ex
       = ([ToUnixNano start_ex \<mapsto> blk_ex [ImmutableSegment 1, MutableSegment 5]],
          Inr (MutableSegment 5))"
    using GetOrAddSegment_contract [of ?r2 t_ex hourly opts_ex]
    by (simp add: entryOrNew_ex seg upd opts_ex_def blockKey_t_ex)
  have 3: "GetOrAddSegment Map.empty t_ex hourly opts_ex
       = ([ToUnixNano start_ex \<mapsto> blk_ex [MutableSegment 5]], Inr (MutableSegment 5))"
    using GetOrAddSegment_contract [of Map.empty t_ex hourly opts_ex]
    by (simp add: entryOrNew_ex seg upd opts_ex_def blockKey_t_ex)
  have 4: "GetOrAddSegment Map.empty t_ex hourly ?bad
       = ([ToUnixNano start_ex \<mapsto> blk_ex []], Inl (AllocError ''full''))"
    using GetOrAddSegment_contract [of Map.empty t_ex hourly ?bad]
    by (simp add: entryOrNew_ex seg upd blockKey_t_ex)
  have 5: "blockStart (blk_ex [ImmutableSegment 1, MutableSegment 5]) = Truncate t_ex (BlockSize hourly)"
    by (simp add: Truncate_t_ex blk_ex_def NewIndexBlock_def)
  show ?thesis using w rp 1 2 3 4 5 by simp
qed

lemma Add_other_key: "k \<noteq> ToUnixNano (blockStart block) \<Longrightarrow> Add r block k = r k"
  by (simp add: Add_def Let_def split: option.splits)

lemma Add_same_key:
  "\<not> IsZero (blockStart block) \<Longrightarrow>
   Add r block (ToUnixNano (blockStart block)) =
     (case r (ToUnixNano (blockStart block)) of
        None \<Rightarrow> Some block
      | Some existing \<Rightarrow> Some (Merged existing block))"
  by (simp add: Add_def Let_def split: option.splits)

lemma not_representable_zero: "representable t \<Longrightarrow> \<not> IsZero t"
  by (auto simp: representable_def IsZero_def unixEpoch_def)

lemma AddResults_Nil [simp]: "AddResults r other [] = r"
  by (simp add: AddResults_def)

lemma AddResults_Cons:
  "AddResults r other (k # ks) =
     AddResults (case other k of None \<Rightarrow> r | Some block \<Rightarrow> Add r block) other ks"
  by (simp add: AddResults_def)

lemma AddResults_lookup:
  assumes "wf_IndexResults other" and "distinct ks"
  shows "AddResults r other ks k =
           (if k \<in> set ks
            then (case other k of
                    None \<Rightarrow> r k
                  | Some b \<Rightarrow> (case r k of None \<Rightarrow> Some b | Some a \<Rightarrow> Some (Merged a b)))
            else r k)"
  using assms(2)
proof (induction ks arbitrary: r)
  case Nil
  then show ?case by simp
next
  case (Cons x xs)
  define r' where "r' = (case other x of None \<Rightarrow> r | Some block \<Rightarrow> Add r block)"
  have d: "distinct xs" and nx: "x \<notin> set xs" using Cons.prems by simp_all
  have "AddResults r other (x # xs) k = AddResults r' other xs k"
    by (simp add: AddResults_Cons r'_def)
  also have "\<dots> =
           (if k \<in> set xs
            then (case other k of
                    None \<Rightarrow> r' k
                  | Some b \<Rightarrow> (case r' k of None \<Rightarrow> Some b | Some a \<Rightarrow> Some (Merged a b)))
            else r' k)"
    by (rule Cons.IH [OF d])
  finally have step: "AddResults r other (x # xs) k =
           (if k \<in> set xs
            then (case other k of
                    None \<Rightarrow> r' k
                  | Some b \<Rightarrow> (case r' k of None \<Rightarrow> Some b | Some a \<Rightarrow> Some (Merged a b)))
            else r' k)" .
  have other_key: "r' k = r k" if "k \<noteq> x"
  proof (cases "other x")
    case None
    then show ?thesis by (simp add: r'_def)
  next
    case (Some b)
    have "ToUnixNano (blockStart b) = x"
      using assms(1) Some by (simp add: wf_IndexResults_def)
    then show ?thesis using Some that by (simp add: r'_def Add_other_key)
  qed
  have same_key: "r' x =
      (case other x of
         None \<Rightarrow> r x
       | Some b \<Rightarrow> (case r x of None \<Rightarrow> Some b | Some a \<Rightarrow> Some (Merged a b)))"
  proof (cases "other x")
    case None
    then show ?thesis by (simp add: r'_def)
  next
    case (Some b)
    have "ToUnixNano (blockStart b) = x" and "\<not> IsZero (blockStart b)"
      using assms(1) Some by (simp_all add: wf_IndexResults_def not_representable_zero)
    then show ?thesis using Some Add_same_key [of b r] by (simp add: r'_def)
  qed
  show ?case
  proof (cases "k = x")
    case True
    have "AddResults r other (x # xs) x = r' x" using step nx True by simp
    then show ?thesis unfolding True using same_key by simp
  next
    case False
    show ?thesis unfolding step other_key [OF False] using False by simp
  qed
qed

lemma segmentCount_sum_list:
  "fold (\<lambda>k size. case r k of None \<Rightarrow> size | Some ir \<Rightarrow> size + length (segments ir)) ks n
     = n + sum_list (map (\<lambda>k. case r k of None \<Rightarrow> 0 | Some ir \<Rightarrow> length (segments ir)) ks)"
  by (induction ks arbitrary: n) (simp_all split: option.splits)

lemma segmentCount_total:
  assumes "distinct ks" and "set ks = dom r"
  shows "segmentCount r ks = (\<Sum>k \<in> dom r. length (segments (the (r k))))"
proof -
  have "segmentCount r ks
      = sum_list (map (\<lambda>k. case r k of None \<Rightarrow> 0 | Some ir \<Rightarrow> length (segments ir)) ks)"
    by (simp add: segmentCount_def segmentCount_sum_list)
  also have "\<dots> = (\<Sum>k \<in> set ks. case r k of None \<Rightarrow> 0 | Some ir \<Rightarrow> length (segments ir))"
    using assms(1) by (simp add: sum_list_distinct_conv_sum_set)
  also have "\<dots> = (\<Sum>k \<in> dom r. length (segments (the (r k))))"
    unfolding assms(2) by (rule sum.cong) auto
  finally show ?thesis .
qed

lemma segmentCount_empty [simp]: "segmentCount Map.empty ks = 0"
  unfolding segmentCount_def segmentCount_sum_list by simp

lemma AddResults_empty [simp]: "AddResults r Map.empty ks = r"
  by (induction ks) (simp_all add: AddResults_Cons)

lemma MergedIndexBootstrapResult_empty:
  "MergedIndexBootstrapResult ksi ksj (Some x) (Some NewIndexBootstrapResult) = Some x"
  by (simp add: MergedIndexBootstrapResult_def NewIndexBootstrapResult_def)

text \<open>
  Claim C5. \<open>MergedIndexBootstrapResult i j\<close> is \<open>j\<close> when \<open>i\<close> is nil and \<open>i\<close> when
  \<open>j\<close> is nil. Otherwise the operand with the greater segment count, the left one on a
  tie, is returned after the index results and the unfulfilled ranges of the other one
  were added to it. Merging \<open>x\<close> with a new, empty result gives \<open>x\<close>, and so does
  merging a new, empty result with an \<open>x\<close> that has a segment. The count along a
  list of all keys of the results, each once, is the total number of segments of their
  blocks; and adding results that are keyed by their block starts along such a list
  leaves a block that only the target has, takes over a block that only the other
  operand has, and merges the two blocks of a key that both have.
\<close>

theorem MergedIndexBootstrapResult_contract:
  "MergedIndexBootstrapResult ksi ksj None j = j
   \<and> MergedIndexBootstrapResult ksi ksj (Some x) None = Some x
   \<and> (segmentCount (results x) ksi \<ge> segmentCount (results y) ksj \<longrightarrow>
        MergedIndexBootstrapResult ksi ksj (Some x) (Some y) =
          Some (x\<lparr>results := AddResults (results x) (results y) ksj,
                  unfulfilled := AddRanges (unfulfilled x) (unfulfilled y)\<rparr>))
   \<and> (segmentCount (results x) ksi < segmentCount (results y) ksj \<longrightarrow>
        MergedIndexBootstrapResult ksi ksj (Some x) (Some y) =
          Some (y\<lparr>results := AddResults (results y) (results x) ksi,
                  unfulfilled := AddRanges (unfulfilled y) (unfulfilled x)\<rparr>))
   \<and> MergedIndexBootstrapResult ksi ksj (Some x) (Some NewIndexBootstrapResult) = Some x
   \<and> (0 < segmentCount (results x) ksi \<longrightarrow>
        MergedIndexBootstrapResult ksj ksi (Some NewIndexBootstrapResult) (Some x) = Some x)
   \<and> (distinct ksi \<and> set ksi = dom (results x) \<longrightarrow>
        segmentCount (results x) ksi = (\<Sum>k \<in> dom (results x). length (segments (the (results x k)))))
   \<and> (wf_IndexResults (results y) \<and> distinct ksj \<and> set ksj = dom (results y) \<longrightarrow>
        (\<forall>k. AddResults (results x) (results y) ksj k =
           (case results y k of
              None \<Rightarrow> results x k
            | Some b \<Rightarrow> (case results x k of None \<Rightarrow> Some b | Some a \<Rightarrow> Some (Merged a b)))))"
proof (intro conjI impI allI)
  show "MergedIndexBootstrapResult ksi ksj None j = j"
    by (simp add: MergedIndexBootstrapResult_def)
  show "MergedIndexBootstrapResult ksi ksj (Some x) None = Some x"
    by (simp add: MergedIndexBootstrapResult_def)
  show "MergedIndexBootstrapResult ksi ksj (Some x) (Some NewIndexBootstrapResult) = Some x"
    by (rule MergedIndexBootstrapResult_empty)
next
  assume "segmentCount (results y) ksj \<le> segmentCount (results x) ksi"
  then show "MergedIndexBootstrapResult ksi ksj (Some x) (Some y) =
          Some (x\<lparr>results := AddResults (results x) (results y) ksj,
                  unfulfilled := AddRanges (unfulfilled x) (unfulfilled y)\<rparr>)"
    by (simp add: MergedIndexBootstrapResult_def)
next
  assume "segmentCount (results x) ksi < segmentCount (results y) ksj"
  then show "MergedIndexBootstrapResult ksi ksj (Some x) (Some y) =
          Some (y\<lparr>results := AddResults (results y) (results x) ksi,
                  unfulfilled := AddRanges (unfulfilled y) (unfulfilled x)\<rparr>)"
    by (simp add: MergedIndexBootstrapResult_def)
next
  assume "0 < segmentCount (results x) ksi"
  then show "MergedIndexBootstrapResult ksj ksi (Some NewIndexBootstrapResult) (Some x) = Some x"
    by (simp add: MergedIndexBootstrapResult_def NewIndexBootstrapResult_def)
next
  assume "distinct ksi \<and> set ksi = dom (results x)"
  then show "segmentCount (results x) ksi
      = (\<Sum>k \<in> dom (results x). length (segments (the (results x k))))"
    using segmentCount_total [of ksi "results x"] by simp
next
  fix k
  assume a: "wf_IndexResults (results y) \<and> distinct ksj \<and> set ksj = dom (results y)"
  then have "AddResults (results x) (results y) ksj k =
           (if k \<in> set ksj
            then (case results y k of
                    None \<Rightarrow> results x k
                  | Some b \<Rightarrow> (case results x k of None \<Rightarrow> Some b | Some a \<Rightarrow> Some (Merged a b)))
            else results x k)"
    using AddResults_lookup [of "results y" ksj "results x" k] by simp
  moreover have "k \<notin> set ksj \<Longrightarrow> results y k = None" using a by auto
  ultimately show "AddResults (results x) (results y) ksj k =
           (case results y k of
              None \<Rightarrow> results x k
            | Some b \<Rightarrow> (case results x k of None \<Rightarrow> Some b | Some a \<Rightarrow> Some (Merged a b)))"
    by (cases "k \<in> set ksj") simp_all
qed

text \<open>
  Two results with a block at the same start: \<open>res_big\<close> with two segments and
  \<open>res_small\<close> with one.
\<close>

definition res_big :: indexBootstrapResult where
  "res_big = \<lparr>results = [ToUnixNano start_ex \<mapsto> blk_ex [ImmutableSegment 1, ImmutableSegment 2]],
              unfulfilled = one_shard 1 [(0, 10)]\<rparr>"

definition res_small :: indexBootstrapResult where
  "res_small = \<lparr>results = [ToUnixNano start_ex \<mapsto> blk_ex [ImmutableSegment 3]],
                unfulfilled = one_shard 1 [(5, 20)]\<rparr>"

definition res_merged :: indexBootstrapResult where
  "res_merged =
     \<lparr>results = [ToUnixNano start_ex \<mapsto>
                   blk_ex [ImmutableSegment 1, ImmutableSegment 2, ImmutableSegment 3]],
      unfulfilled = one_shard 1 [(0, 20)]\<rparr>"

lemma Merged_blk_ex: "Merged (blk_ex xs) (blk_ex ys) = blk_ex (xs @ ys)"
  by (simp add: Merged_def blk_ex_def NewIndexBlock_def Let_def)

lemma Add_blk_ex:
  "Add [ToUnixNano start_ex \<mapsto> blk_ex xs] (blk_ex ys) = [ToUnixNano start_ex \<mapsto> blk_ex (xs @ ys)]"
proof -
  have "blockStart (blk_ex ys) = start_ex" by (simp add: blk_ex_def NewIndexBlock_def)
  moreover have "\<not> IsZero start_ex" using representable_start_ex by (rule not_representable_zero)
  ultimately show ?thesis by (simp add: Add_def Let_def Merged_blk_ex)
qed

theorem MergedIndexBootstrapResult_contract_witness:
  "segmentCount (results res_big) [ToUnixNano start_ex] = 2
   \<and> segmentCount (results res_small) [ToUnixNano start_ex] = 1
   \<and> MergedIndexBootstrapResult [ToUnixNano start_ex] [ToUnixNano start_ex]
        (Some res_big) (Some res_small) = Some res_merged
   \<and> MergedIndexBootstrapResult [ToUnixNano start_ex] [ToUnixNano start_ex]
        (Some res_small) (Some res_big) = Some res_merged
   \<and> MergedIndexBootstrapResult [ToUnixNano start_ex] [] (Some res_big) (Some NewIndexBootstrapResult)
        = Some res_big
   \<and> MergedIndexBootstrapResult [] [ToUnixNano start_ex] (Some NewIndexBootstrapResult) (Some res_big)
        = Some res_big
   \<and> MergedIndexBootstrapResult [] [ToUnixNano start_ex] None (Some res_small) = Some res_small
   \<and> MergedIndexBootstrapResult [ToUnixNano start_ex] [] (Some res_big) None = Some res_big
   \<and> wf_IndexResults (results res_small)
   \<and> distinct [ToUnixNano start_ex]
   \<and> set [ToUnixNano start_ex] = dom (results res_small)"
proof -
  let ?k = "ToUnixNano start_ex"
  have cb: "segmentCount (results res_big) [?k] = 2"
    by (simp add: segmentCount_def res_big_def blk_ex_def NewIndexBlock_def)
  have cs: "segmentCount (results res_small) [?k] = 1"
    by (simp add: segmentCount_def res_small_def blk_ex_def NewIndexBlock_def)
  have ab: "AddResults (results res_big) (results res_small) [?k]
      = [?k \<mapsto> blk_ex [ImmutableSegment 1, ImmutableSegment 2, ImmutableSegment 3]]"
    by (simp add: AddResults_Cons res_big_def res_small_def Add_blk_ex)
  have u1: "AddRanges (unfulfilled res_big) (unfulfilled res_small) = one_shard 1 [(0, 20)]"
    by (simp add: res_big_def res_small_def AddRanges_one_shard Ranges_AddRanges_def)
  have m1: "res_big\<lparr>results := [?k \<mapsto> blk_ex [ImmutableSegment 1, ImmutableSegment 2, ImmutableSegment 3]],
                   unfulfilled := one_shard 1 [(0, 20)]\<rparr> = res_merged"
    by (simp add: res_big_def res_merged_def)
  have 1: "MergedIndexBootstrapResult [?k] [?k] (Some res_big) (Some res_small) = Some res_merged"
    using MergedIndexBootstrapResult_contract [of "[?k]" "[?k]" "Some res_small" res_big res_small]
      cb cs ab u1 m1 by simp
  have 2: "MergedIndexBootstrapResult [?k] [?k] (Some res_small) (Some res_big) = Some res_merged"
    using MergedIndexBootstrapResult_contract [of "[?k]" "[?k]" "Some res_big" res_small res_big]
      cb cs ab u1 m1 by simp
  have 3: "MergedIndexBootstrapResult [?k] [] (Some res_big) (Some NewIndexBootstrapResult) = Some res_big"
    using MergedIndexBootstrapResult_contract [of "[?k]" "[]" None res_big res_small] by simp
  have left_empty: "MergedIndexBootstrapResult [] [?k] (Some NewIndexBootstrapResult) (Some res_big) = Some res_big"
    using MergedIndexBootstrapResult_contract [of "[?k]" "[]" None res_big res_small] cb by simp
  have 4: "MergedIndexBootstrapResult [] [?k] None (Some res_small) = Some res_small"
    using MergedIndexBootstrapResult_contract [of "[]" "[?k]" "Some res_small" res_big res_small] by simp
  have 5: "MergedIndexBootstrapResult [?k] [] (Some res_big) None = Some res_big"
    using MergedIndexBootstrapResult_contract [of "[?k]" "[]" None res_big res_small] by simp
  have w: "wf_IndexResults (results res_small)"
    by (simp add: res_small_def wf_IndexResults_ex)
  have d: "set [?k] = dom (results res_small)" by (simp add: res_small_def)
  show ?thesis using cb cs 1 2 3 left_empty 4 5 w d by simp
qed

section \<open>Aliasing of the fulfilled ranges\<close>

text \<open>
  A \<open>ShardTimeRanges\<close> is a Go map, so an \<open>IndexBlock\<close> holds a reference to it and
  copying the block copies the reference. The heap is the list of the maps allocated so
  far and an address is a position in it; \<open>Copy\<close> allocates a new map, \<open>AddRanges\<close>
  writes into the map of its receiver. Go has no dangling references: the addresses of a
  block are positions of the heap.
\<close>

type_synonym addr = nat
type_synonym heap = "ShardTimeRanges list"

record IndexBlockRef =
  ref_blockStart :: Time
  ref_segments :: "Segment list"
  ref_fulfilled :: addr

definition heap_Copy :: "heap \<Rightarrow> addr \<Rightarrow> heap \<times> addr" where
  "heap_Copy h p = (h @ [Copy (h ! p)], length h)"

definition heap_AddRanges :: "heap \<Rightarrow> addr \<Rightarrow> addr \<Rightarrow> heap" where
  "heap_AddRanges h p q = h[p := AddRanges (h ! p) (h ! q)]"

definition heap_Merged :: "heap \<Rightarrow> IndexBlockRef \<Rightarrow> IndexBlockRef \<Rightarrow> heap \<times> IndexBlockRef" where
  "heap_Merged h b other =
     (let r = b;
          r = (if length (ref_segments other) > 0
               then r\<lparr>ref_segments := ref_segments r @ ref_segments other\<rparr> else r)
      in if \<not> IsEmpty (h ! ref_fulfilled other)
         then (let (h1, p) = heap_Copy h (ref_fulfilled b);
                   h2 = heap_AddRanges h1 p (ref_fulfilled other)
               in (h2, r\<lparr>ref_fulfilled := p\<rparr>))
         else (h, r))"

text \<open>What \<open>b.Fulfilled()\<close> shows in a heap, and the block a reference stands for.\<close>

definition Fulfilled :: "heap \<Rightarrow> IndexBlockRef \<Rightarrow> ShardTimeRanges" where
  "Fulfilled h b = h ! ref_fulfilled b"

definition block_of :: "heap \<Rightarrow> IndexBlockRef \<Rightarrow> IndexBlock" where
  "block_of h b =
     \<lparr>blockStart = ref_blockStart b, segments = ref_segments b, fulfilled = Fulfilled h b\<rparr>"

definition valid_block :: "heap \<Rightarrow> IndexBlockRef \<Rightarrow> bool" where
  "valid_block h b = (ref_fulfilled b < length h)"

lemma heap_Merged_nonempty:
  assumes "\<not> IsEmpty (h ! ref_fulfilled b)" and "ref_fulfilled b < length h"
  shows "heap_Merged h a b =
           (h @ [AddRanges (h ! ref_fulfilled a) (h ! ref_fulfilled b)],
            a\<lparr>ref_segments := ref_segments a @ ref_segments b, ref_fulfilled := length h\<rparr>)"
  using assms
  by (simp add: heap_Merged_def heap_Copy_def heap_AddRanges_def Copy_def Let_def nth_append)

lemma heap_Merged_empty:
  assumes "IsEmpty (h ! ref_fulfilled b)"
  shows "heap_Merged h a b = (h, a\<lparr>ref_segments := ref_segments a @ ref_segments b\<rparr>)"
  using assms by (simp add: heap_Merged_def Let_def)

text \<open>
  An example heap: the ranges of block \<open>ref_A\<close> at address 0, the empty ranges of
  block \<open>ref_B\<close> at address 1, and further ranges at address 2.
\<close>

definition heap_ex :: heap where
  "heap_ex = [one_shard 1 [(0, 10)], NoRanges, one_shard 1 [(20, 30)]]"

definition ref_A :: IndexBlockRef where
  "ref_A = \<lparr>ref_blockStart = 7200, ref_segments = [ImmutableSegment 1], ref_fulfilled = 0\<rparr>"

definition ref_B :: IndexBlockRef where
  "ref_B = \<lparr>ref_blockStart = 7200, ref_segments = [ImmutableSegment 2], ref_fulfilled = 1\<rparr>"

definition ref_C :: IndexBlockRef where
  "ref_C = \<lparr>ref_blockStart = 7200, ref_segments = [ImmutableSegment 3], ref_fulfilled = 2\<rparr>"

lemma one_shard_neq: "xs \<noteq> ys \<Longrightarrow> one_shard s xs \<noteq> one_shard s ys"
  by (auto simp: one_shard_def fun_eq_iff)

text \<open>
  Claim C9 fails on the code: \<open>Merged\<close> copies the fulfilled ranges only when those of
  the other block are not empty. Merging \<open>ref_A\<close> with \<open>ref_B\<close>, whose ranges are empty,
  gives a block whose fulfilled ranges are the map of \<open>ref_A\<close> itself, and adding ranges
  to the result changes what \<open>ref_A\<close> shows as fulfilled.
\<close>

theorem Merged_aliases_receiver:
  "valid_block heap_ex ref_A \<and> valid_block heap_ex ref_B
   \<and> ref_fulfilled (snd (heap_Merged heap_ex ref_A ref_B)) = ref_fulfilled ref_A
   \<and> Fulfilled heap_ex ref_A = one_shard 1 [(0, 10)]
   \<and> Fulfilled
        (heap_AddRanges (fst (heap_Merged heap_ex ref_A ref_B))
           (ref_fulfilled (snd (heap_Merged heap_ex ref_A ref_B))) 2)
        ref_A = one_shard 1 [(0, 10), (20, 30)]
   \<and> Fulfilled
        (heap_AddRanges (fst (heap_Merged heap_ex ref_A ref_B))
           (ref_fulfilled (snd (heap_Merged heap_ex ref_A ref_B))) 2)
        ref_A \<noteq> Fulfilled heap_ex ref_A"
proof -
  have e: "IsEmpty (heap_ex ! ref_fulfilled ref_B)"
    by (simp add: heap_ex_def ref_B_def)
  have m: "heap_Merged heap_ex ref_A ref_B
             = (heap_ex, ref_A\<lparr>ref_segments := ref_segments ref_A @ ref_segments ref_B\<rparr>)"
    using e by (rule heap_Merged_empty)
  have f: "Fulfilled (heap_AddRanges heap_ex 0 2) ref_A = one_shard 1 [(0, 10), (20, 30)]"
    by (simp add: Fulfilled_def heap_AddRanges_def heap_ex_def ref_A_def AddRanges_one_shard
        Ranges_AddRanges_def)
  have ne: "one_shard 1 [(0, 10), (20, 30)] \<noteq> one_shard (1 :: 32 word) [(0, 10)]"
    by (rule one_shard_neq) simp
  have a: "Fulfilled heap_ex ref_A = one_shard 1 [(0, 10)]"
    by (simp add: Fulfilled_def heap_ex_def ref_A_def)
  have v: "valid_block heap_ex ref_A \<and> valid_block heap_ex ref_B"
    by (simp add: valid_block_def heap_ex_def ref_A_def ref_B_def)
  have r: "ref_fulfilled ref_A = 0" by (simp add: ref_A_def)
  show ?thesis using v a f ne by (simp add: m r)
qed

text \<open>
  Claim C9 as amended. For blocks \<open>a\<close> and \<open>b\<close> of a heap, \<open>Merged\<close> changes no map
  that exists, and the block it returns stands for the merged block of the values. When
  the fulfilled ranges of \<open>b\<close> are not empty, those of the result are a new map, at an
  address that neither \<open>a\<close> nor \<open>b\<close> holds, so whatever is written to it later, and
  adding ranges to it in particular, \<open>a\<close> and \<open>b\<close> show the fulfilled ranges they
  showed before. When the fulfilled ranges of \<open>b\<close> are empty, no copy is made: the
  result holds the map of \<open>a\<close>.
\<close>

theorem Merged_copy_on_write:
  assumes "valid_block h a" and "valid_block h b"
  shows "(\<forall>p < length h. fst (heap_Merged h a b) ! p = h ! p)
       \<and> block_of (fst (heap_Merged h a b)) (snd (heap_Merged h a b))
           = Merged (block_of h a) (block_of h b)
       \<and> valid_block (fst (heap_Merged h a b)) (snd (heap_Merged h a b))
       \<and> (\<not> IsEmpty (Fulfilled h b) \<longrightarrow>
            ref_fulfilled (snd (heap_Merged h a b)) = length h
            \<and> ref_fulfilled (snd (heap_Merged h a b)) \<noteq> ref_fulfilled a
            \<and> ref_fulfilled (snd (heap_Merged h a b)) \<noteq> ref_fulfilled b
            \<and> (\<forall>v. Fulfilled ((fst (heap_Merged h a b))[ref_fulfilled (snd (heap_Merged h a b)) := v]) a
                      = Fulfilled h a
                  \<and> Fulfilled ((fst (heap_Merged h a b))[ref_fulfilled (snd (heap_Merged h a b)) := v]) b
                      = Fulfilled h b)
            \<and> (\<forall>q. Fulfilled (heap_AddRanges (fst (heap_Merged h a b))
                                 (ref_fulfilled (snd (heap_Merged h a b))) q) a
                      = Fulfilled h a
                  \<and> Fulfilled (heap_AddRanges (fst (heap_Merged h a b))
                                 (ref_fulfilled (snd (heap_Merged h a b))) q) b
                      = Fulfilled h b))
       \<and> (IsEmpty (Fulfilled h b) \<longrightarrow>
            fst (heap_Merged h a b) = h
            \<and> ref_fulfilled (snd (heap_Merged h a b)) = ref_fulfilled a)"
proof (cases "IsEmpty (h ! ref_fulfilled b)")
  case True
  have m: "heap_Merged h a b = (h, a\<lparr>ref_segments := ref_segments a @ ref_segments b\<rparr>)"
    using True by (rule heap_Merged_empty)
  have "block_of h (a\<lparr>ref_segments := ref_segments a @ ref_segments b\<rparr>)
          = Merged (block_of h a) (block_of h b)"
    using True by (simp add: block_of_def Fulfilled_def Merged_def Let_def)
  then show ?thesis using True assms by (simp add: m Fulfilled_def valid_block_def)
next
  case False
  let ?u = "AddRanges (h ! ref_fulfilled a) (h ! ref_fulfilled b)"
  let ?r = "a\<lparr>ref_segments := ref_segments a @ ref_segments b, ref_fulfilled := length h\<rparr>"
  have la: "ref_fulfilled a < length h" and lb: "ref_fulfilled b < length h"
    using assms by (simp_all add: valid_block_def)
  have m: "heap_Merged h a b = (h @ [?u], ?r)"
    using False lb by (rule heap_Merged_nonempty)
  have old: "\<forall>p < length h. (h @ [?u]) ! p = h ! p" by (simp add: nth_append)
  have blk: "block_of (h @ [?u]) ?r = Merged (block_of h a) (block_of h b)"
    using False by (simp add: block_of_def Fulfilled_def Merged_def Let_def Copy_def)
  have wr: "\<forall>v. Fulfilled ((h @ [?u])[length h := v]) a = Fulfilled h a
              \<and> Fulfilled ((h @ [?u])[length h := v]) b = Fulfilled h b"
    using la lb by (simp add: Fulfilled_def nth_append)
  have ar: "\<forall>q. Fulfilled (heap_AddRanges (h @ [?u]) (length h) q) a = Fulfilled h a
              \<and> Fulfilled (heap_AddRanges (h @ [?u]) (length h) q) b = Fulfilled h b"
    using la lb by (simp add: Fulfilled_def heap_AddRanges_def nth_append)
  show ?thesis
    unfolding m fst_conv snd_conv
    using False old blk wr ar la lb by (simp add: Fulfilled_def valid_block_def)
qed

theorem Merged_copy_on_write_witness:
  "valid_block heap_ex ref_A \<and> valid_block heap_ex ref_C
   \<and> ref_fulfilled (snd (heap_Merged heap_ex ref_A ref_C)) = 3
   \<and> Fulfilled (fst (heap_Merged heap_ex ref_A ref_C)) (snd (heap_Merged heap_ex ref_A ref_C))
       = one_shard 1 [(0, 10), (20, 30)]
   \<and> Fulfilled
        (heap_AddRanges (fst (heap_Merged heap_ex ref_A ref_C))
           (ref_fulfilled (snd (heap_Merged heap_ex ref_A ref_C))) 2)
        ref_A = one_shard 1 [(0, 10)]
   \<and> Fulfilled
        (heap_AddRanges (fst (heap_Merged heap_ex ref_A ref_C))
           (ref_fulfilled (snd (heap_Merged heap_ex ref_A ref_C))) 2)
        ref_C = one_shard 1 [(20, 30)]
   \<and> IsEmpty (Fulfilled heap_ex ref_B)
   \<and> ref_fulfilled (snd (heap_Merged heap_ex ref_A ref_B)) = 0"
proof -
  have va: "valid_block heap_ex ref_A" and vb: "valid_block heap_ex ref_B"
    and vc: "valid_block heap_ex ref_C"
    by (simp_all add: valid_block_def heap_ex_def ref_A_def ref_B_def ref_C_def)
  have fa: "Fulfilled heap_ex ref_A = one_shard 1 [(0, 10)]"
    and fb: "Fulfilled heap_ex ref_B = NoRanges"
    and fc: "Fulfilled heap_ex ref_C = one_shard 1 [(20, 30)]"
    by (simp_all add: Fulfilled_def heap_ex_def ref_A_def ref_B_def ref_C_def)
  have ne: "\<not> IsEmpty (Fulfilled heap_ex ref_C)" by (simp add: fc)
  have len: "length heap_ex = 3" by (simp add: heap_ex_def)
  note ac = Merged_copy_on_write [OF va vc]
  note ab = Merged_copy_on_write [OF va vb]
  have 1: "ref_fulfilled (snd (heap_Merged heap_ex ref_A ref_C)) = 3"
    using ac ne len by simp
  have "block_of (fst (heap_Merged heap_ex ref_A ref_C)) (snd (heap_Merged heap_ex ref_A ref_C))
           = Merged (block_of heap_ex ref_A) (block_of heap_ex ref_C)"
    using ac by simp
  then have "fulfilled (block_of (fst (heap_Merged heap_ex ref_A ref_C))
                 (snd (heap_Merged heap_ex ref_A ref_C)))
           = fulfilled (Merged (block_of heap_ex ref_A) (block_of heap_ex ref_C))"
    by (simp only:)
  then have "Fulfilled (fst (heap_Merged heap_ex ref_A ref_C)) (snd (heap_Merged heap_ex ref_A ref_C))
      = AddRanges (Fulfilled heap_ex ref_A) (Fulfilled heap_ex ref_C)"
    by (simp add: block_of_def Merged_fulfilled)
  then have 2: "Fulfilled (fst (heap_Merged heap_ex ref_A ref_C)) (snd (heap_Merged heap_ex ref_A ref_C))
       = one_shard 1 [(0, 10), (20, 30)]"
    by (simp add: fa fc AddRanges_one_shard Ranges_AddRanges_def)
  have q: "\<forall>q. Fulfilled (heap_AddRanges (fst (heap_Merged heap_ex ref_A ref_C))
                         (ref_fulfilled (snd (heap_Merged heap_ex ref_A ref_C))) q) ref_A
                   = Fulfilled heap_ex ref_A
               \<and> Fulfilled (heap_AddRanges (fst (heap_Merged heap_ex ref_A ref_C))
                         (ref_fulfilled (snd (heap_Merged heap_ex ref_A ref_C))) q) ref_C
                   = Fulfilled heap_ex ref_C"
    using ac ne by blast
  have 3: "Fulfilled
        (heap_AddRanges (fst (heap_Merged heap_ex ref_A ref_C))
           (ref_fulfilled (snd (heap_Merged heap_ex ref_A ref_C))) 2)
        ref_A = one_shard 1 [(0, 10)]"
    using spec [OF q, of 2] by (simp only: fa)
  have 4: "Fulfilled
        (heap_AddRanges (fst (heap_Merged heap_ex ref_A ref_C))
           (ref_fulfilled (snd (heap_Merged heap_ex ref_A ref_C))) 2)
        ref_C = one_shard 1 [(20, 30)]"
    using spec [OF q, of 2] by (simp only: fc)
  have 5: "IsEmpty (Fulfilled heap_ex ref_B)" by (simp add: fb)
  have 6: "ref_fulfilled (snd (heap_Merged heap_ex ref_A ref_B)) = 0"
    using ab 5 by (simp add: ref_A_def)
  show ?thesis using va vc 1 2 3 4 5 6 by simp
qed

section \<open>Package xio: the segment reader\<close>

text \<open>
  A \<open>ts.Segment\<close> holds two optional byte buffers, \<open>Head\<close> and \<open>Tail\<close>; a nil buffer
  is \<open>None\<close>. The reader keeps the segment and the read position \<open>si\<close>, a Go
  \<open>int\<close> that starts at 0 and is only ever increased by the number of bytes copied, so
  it is a natural number here.
\<close>

type_synonym byte = "8 word"

record ts_Segment =
  Head :: "byte list option"
  Tail :: "byte list option"

record segmentReader =
  sr_segment :: ts_Segment
  sr_si :: nat

datatype io_error = EOF

text \<open>
  Go's builtin \<open>copy(dst, src)\<close> overwrites the first \<open>min (len dst) (len src)\<close> elements
  of \<open>dst\<close> and returns that count. The model returns the new contents of \<open>dst\<close> too.
\<close>

definition copy :: "'a list \<Rightarrow> 'a list \<Rightarrow> 'a list \<times> nat" where
  "copy dst src =
     (let k = min (length dst) (length src) in (take k src @ drop k dst, k))"

definition seg_head :: "segmentReader \<Rightarrow> byte list" where
  "seg_head sr = (case Head (sr_segment sr) of None \<Rightarrow> [] | Some bs \<Rightarrow> bs)"

definition seg_tail :: "segmentReader \<Rightarrow> byte list" where
  "seg_tail sr = (case Tail (sr_segment sr) of None \<Rightarrow> [] | Some bs \<Rightarrow> bs)"

text \<open>
  \<open>Read\<close> takes the reader and the destination buffer and returns the updated reader,
  the buffer after the call, the count \<open>n\<close> and the error (\<open>None\<close> is nil).
\<close>

definition Read :: "segmentReader \<Rightarrow> byte list \<Rightarrow> segmentReader \<times> byte list \<times> nat \<times> io_error option" where
  "Read sr b =
     (if length b = 0 then (sr, b, 0, None)
      else
        let head = seg_head sr; tail = seg_tail sr;
            nh = length head; nt = length tail
        in if sr_si sr \<ge> nh + nt then (sr, b, 0, Some EOF)
           else
             let (sr1, b1, n1) =
                   (if sr_si sr < nh
                    then (let (b', nRead) = copy b (drop (sr_si sr) head)
                          in (sr\<lparr>sr_si := sr_si sr + nRead\<rparr>, b', 0 + nRead))
                    else (sr, b, 0))
             in if sr_si sr < nh \<and> n1 = length b then (sr1, b1, n1, None)
                else
                  let (sr2, b2, n2) =
                        (if sr_si sr1 < nh + nt
                         then (let (b', nRead) = copy (drop n1 b1) (drop (sr_si sr1 - nh) tail)
                               in (sr1\<lparr>sr_si := sr_si sr1 + nRead\<rparr>, take n1 b1 @ b', n1 + nRead))
                         else (sr1, b1, n1))
                  in if n2 = 0 then (sr2, b2, 0, Some EOF) else (sr2, b2, n2, None))"

text \<open>
  Successive reads into a given sequence of destination buffers, concatenating what each
  call produced.
\<close>

fun ReadSeq :: "segmentReader \<Rightarrow> byte list list \<Rightarrow> byte list" where
  "ReadSeq sr [] = []"
| "ReadSeq sr (b # bs) =
     (case Read sr b of (sr', b', n, err) \<Rightarrow> take n b' @ ReadSeq sr' bs)"


text \<open>All the bytes of the segment: the head followed by the tail.\<close>

definition seg_bytes :: "segmentReader \<Rightarrow> byte list" where
  "seg_bytes sr = seg_head sr @ seg_tail sr"

lemma seg_head_si [simp]: "seg_head (sr\<lparr>sr_si := k\<rparr>) = seg_head sr"
  by (simp add: seg_head_def)

lemma seg_tail_si [simp]: "seg_tail (sr\<lparr>sr_si := k\<rparr>) = seg_tail sr"
  by (simp add: seg_tail_def)

lemma Read_nonempty:
  assumes "b \<noteq> []"
  shows "Read sr b =
    (let k = min (length b) (length (seg_bytes sr) - sr_si sr)
     in (sr\<lparr>sr_si := sr_si sr + k\<rparr>,
         take k (drop (sr_si sr) (seg_bytes sr)) @ drop k b,
         k,
         if sr_si sr \<ge> length (seg_bytes sr) then Some EOF else None))"
proof -
  let ?h = "seg_head sr" and ?t = "seg_tail sr" and ?i = "sr_si sr"
  consider (eof) "?i \<ge> length ?h + length ?t"
    | (hd_full) "?i < length ?h" "length b \<le> length ?h - ?i"
    | (hd_part) "?i < length ?h" "length b > length ?h - ?i"
    | (tl) "?i \<ge> length ?h" "?i < length ?h + length ?t"
    by linarith
  then show ?thesis
  proof cases
    case eof
    then show ?thesis using assms by (simp add: Read_def seg_bytes_def Let_def)
  next
    case hd_full
    then show ?thesis using assms
      by (simp add: Read_def seg_bytes_def Let_def copy_def min_def)
  next
    case hd_part
    then show ?thesis using assms
      by (auto simp add: Read_def seg_bytes_def Let_def copy_def min_def add.commute)
  next
    case tl
    then show ?thesis using assms
      by (auto simp add: Read_def seg_bytes_def Let_def copy_def min_def add.commute)
  qed
qed

lemma ReadSeq_eq:
  assumes "\<forall>b \<in> set bs. b \<noteq> []"
  shows "ReadSeq sr bs = take (sum_list (map length bs)) (drop (sr_si sr) (seg_bytes sr))"
  using assms
proof (induction bs arbitrary: sr)
  case Nil
  then show ?case by simp
next
  case (Cons b bs)
  let ?k = "min (length b) (length (seg_bytes sr) - sr_si sr)"
  let ?sr' = "sr\<lparr>sr_si := sr_si sr + ?k\<rparr>"
  have b: "b \<noteq> []" using Cons.prems by simp
  have sb: "seg_bytes ?sr' = seg_bytes sr" by (simp add: seg_bytes_def)
  have "ReadSeq sr (b # bs) = take ?k (drop (sr_si sr) (seg_bytes sr)) @ ReadSeq ?sr' bs"
    using Read_nonempty [OF b, of sr] by (simp add: Let_def)
  also have "ReadSeq ?sr' bs = take (sum_list (map length bs)) (drop (sr_si sr + ?k) (seg_bytes sr))"
    using Cons.IH [of ?sr'] Cons.prems sb by simp
  finally show ?case
    by (simp add: take_add [symmetric] min_def drop_drop add.commute) (auto simp: take_add)
qed

text \<open>
  A caller's loop: read into a fresh buffer of \<open>k\<close> bytes until \<open>Read\<close> reports
  an error, concatenating what each call produced. With an empty buffer \<open>Read\<close>
  returns \<open>(0, nil)\<close> for ever, so the loop is only entered for \<open>k > 0\<close>. Every
  successful read moves the position forward, which is the termination argument.
\<close>

lemma Read_ok_decreases:
  assumes "b \<noteq> []" and "Read sr b = (sr', b', n, None)"
  shows "length (seg_bytes sr') - sr_si sr' < length (seg_bytes sr) - sr_si sr"
proof -
  have lt: "sr_si sr < length (seg_bytes sr)"
    using Read_nonempty [OF assms(1), of sr] assms(2)
    by (simp add: Let_def split: if_splits)
  have sr': "sr' = sr\<lparr>sr_si := sr_si sr + min (length b) (length (seg_bytes sr) - sr_si sr)\<rparr>"
    using Read_nonempty [OF assms(1), of sr] assms(2) by (simp add: Let_def)
  obtain x xs where b: "b = x # xs" using assms(1) by (cases b) auto
  show ?thesis using lt by (simp add: sr' seg_bytes_def min_def b) arith
qed

function ReadAll :: "nat \<Rightarrow> segmentReader \<Rightarrow> byte list" where
  "ReadAll k sr =
     (if k = 0 then []
      else (case Read sr (replicate k 0) of
              (sr', b', n, Some e) \<Rightarrow> take n b'
            | (sr', b', n, None) \<Rightarrow> take n b' @ ReadAll k sr'))"
  by pat_completeness auto
termination
proof (relation "measure (\<lambda>(k, sr). length (seg_bytes sr) - sr_si sr)", goal_cases)
  case 1
  show ?case by simp
next
  case (2 k sr x2 x2a x2b x2c x2d)
  have ne: "replicate k (0::byte) \<noteq> []" using 2(1) by simp
  have "Read sr (replicate k 0) = (x2, x2b, x2d, None)"
    using 2(2-) by simp
  from Read_ok_decreases [OF ne this] show ?case by simp
qed

declare ReadAll.simps [simp del]

lemma ReadAll_eq: "0 < k \<Longrightarrow> ReadAll k sr = drop (sr_si sr) (seg_bytes sr)"
proof (induction k sr rule: ReadAll.induct)
  case (1 k sr)
  let ?m = "min k (length (seg_bytes sr) - sr_si sr)"
  let ?sr' = "sr\<lparr>sr_si := sr_si sr + ?m\<rparr>"
  have rd: "Read sr (replicate k 0) =
      (?sr', take ?m (drop (sr_si sr) (seg_bytes sr)) @ drop ?m (replicate k 0), ?m,
       if sr_si sr \<ge> length (seg_bytes sr) then Some EOF else None)"
    using Read_nonempty [of "replicate k 0" sr] "1.prems" by (simp add: Let_def)
  show ?case
  proof (cases "sr_si sr \<ge> length (seg_bytes sr)")
    case True
    then show ?thesis using rd "1.prems" by (subst ReadAll.simps) simp
  next
    case False
    have sb: "seg_bytes ?sr' = seg_bytes sr" by (simp add: seg_bytes_def)
    have rdF: "Read sr (replicate k 0) =
      (?sr', take ?m (drop (sr_si sr) (seg_bytes sr)) @ drop ?m (replicate k 0), ?m, None)"
      using rd False by simp
    have k0: "k \<noteq> 0" using "1.prems" by simp
    have "ReadAll k ?sr' = drop (sr_si ?sr') (seg_bytes ?sr')"
      by (rule "1.IH" [OF k0 rdF [symmetric] refl refl refl "1.prems"])
    then have ih: "ReadAll k ?sr' = drop (sr_si sr + ?m) (seg_bytes sr)"
      using sb by simp
    have "ReadAll k sr = take ?m (drop (sr_si sr) (seg_bytes sr)) @ ReadAll k ?sr'"
      using rd False "1.prems" by (subst ReadAll.simps) simp
    also have "ReadAll k ?sr' = drop ?m (drop (sr_si sr) (seg_bytes sr))"
      using ih by (simp add: add.commute)
    finally show ?thesis by (simp only: append_take_drop_id)
  qed
qed

lemma Read_empty: "Read sr [] = (sr, [], 0, None)"
  by (simp add: Read_def)

text \<open>
  Claim C10. For a reader over head bytes \<open>h\<close> and tail bytes \<open>t\<close>: a read into an
  empty buffer returns \<open>(0, nil)\<close> whatever the position, also at the end of the data;
  a read into a non-empty buffer returns \<open>io.EOF\<close> exactly when the position is at or
  past \<open>len h + len t\<close>, and otherwise produces the next bytes of \<open>h @ t\<close> and
  advances the position by their number; so successive reads, into any buffers that
  together offer enough room or into a buffer of \<open>k > 0\<close> bytes until \<open>EOF\<close>,
  produce exactly \<open>h @ t\<close>.
\<close>

theorem segmentReader_Read_contract:
  "Read sr [] = (sr, [], 0, None)
   \<and> (b \<noteq> [] \<longrightarrow>
        (case Read sr b of (sr', b', n, err) \<Rightarrow>
           (err = Some EOF \<longleftrightarrow> length (seg_head sr) + length (seg_tail sr) \<le> sr_si sr)
           \<and> (err = None \<or> err = Some EOF)
           \<and> take n b' = take (length b) (drop (sr_si sr) (seg_head sr @ seg_tail sr))
           \<and> sr_si sr' = sr_si sr + n
           \<and> sr_segment sr' = sr_segment sr))
   \<and> (sr_si sr = 0 \<and> (\<forall>b \<in> set bs. b \<noteq> [])
          \<and> length (seg_head sr) + length (seg_tail sr) \<le> sum_list (map length bs)
        \<longrightarrow> ReadSeq sr bs = seg_head sr @ seg_tail sr)
   \<and> (sr_si sr = 0 \<and> 0 < k \<longrightarrow> ReadAll k sr = seg_head sr @ seg_tail sr)"
proof (intro conjI impI)
  show "Read sr [] = (sr, [], 0, None)" by (rule Read_empty)
next
  assume b: "b \<noteq> []"
  show "case Read sr b of (sr', b', n, err) \<Rightarrow>
           (err = Some EOF \<longleftrightarrow> length (seg_head sr) + length (seg_tail sr) \<le> sr_si sr)
           \<and> (err = None \<or> err = Some EOF)
           \<and> take n b' = take (length b) (drop (sr_si sr) (seg_head sr @ seg_tail sr))
           \<and> sr_si sr' = sr_si sr + n
           \<and> sr_segment sr' = sr_segment sr"
  proof -
    define xs where "xs = drop (sr_si sr) (seg_bytes sr)"
    define k where "k = min (length b) (length (seg_bytes sr) - sr_si sr)"
    have len: "length xs = length (seg_bytes sr) - sr_si sr"
      by (simp add: xs_def)
    have k: "k \<le> length xs" using len by (simp add: k_def)
    have "take k (take k xs @ drop k b) = take k xs"
      using k by simp
    also have "\<dots> = take (length b) xs"
      using len by (cases "length b \<le> length xs") (simp_all add: k_def min_def)
    finally have tk: "take k (take k xs @ drop k b) = take (length b) xs" .
    have rd: "Read sr b = (sr\<lparr>sr_si := sr_si sr + k\<rparr>, take k xs @ drop k b, k,
                if sr_si sr \<ge> length (seg_bytes sr) then Some EOF else None)"
      unfolding Read_nonempty [OF b] Let_def xs_def k_def ..
    have sb: "seg_head sr @ seg_tail sr = seg_bytes sr" by (simp add: seg_bytes_def)
    have ln: "length (seg_head sr) + length (seg_tail sr) = length (seg_bytes sr)"
      by (simp add: seg_bytes_def)
    show ?thesis
      unfolding rd prod.case sb ln xs_def [symmetric]
      using tk by simp
  qed
next
  assume a: "sr_si sr = 0 \<and> (\<forall>b \<in> set bs. b \<noteq> [])
          \<and> length (seg_head sr) + length (seg_tail sr) \<le> sum_list (map length bs)"
  then have "length (seg_bytes sr) \<le> sum_list (map length bs)"
    by (simp add: seg_bytes_def)
  then have "take (sum_list (map length bs)) (seg_bytes sr) = seg_bytes sr"
    by (rule take_all)
  then show "ReadSeq sr bs = seg_head sr @ seg_tail sr"
    using ReadSeq_eq [of bs sr] a by (simp add: seg_bytes_def del: take_append)
next
  assume "sr_si sr = 0 \<and> 0 < k"
  then show "ReadAll k sr = seg_head sr @ seg_tail sr"
    using ReadAll_eq [of k sr] by (simp add: seg_bytes_def)
qed

text \<open>A reader over head \<open>[1, 2, 3]\<close> and tail \<open>[4, 5]\<close>, at position \<open>i\<close>.\<close>

definition sr_example :: "nat \<Rightarrow> segmentReader" where
  "sr_example i = \<lparr>sr_segment = \<lparr>Head = Some [1, 2, 3], Tail = Some [4, 5]\<rparr>, sr_si = i\<rparr>"

theorem segmentReader_Read_contract_witness:
  "Read (sr_example 5) [] = (sr_example 5, [], 0, None)
   \<and> Read (sr_example 0) [0, 0, 0, 0] = (sr_example 4, [1, 2, 3, 4], 4, None)
   \<and> Read (sr_example 4) [9, 9] = (sr_example 5, [5, 9], 1, None)
   \<and> Read (sr_example 5) [9, 9] = (sr_example 5, [9, 9], 0, Some EOF)
   \<and> ReadSeq (sr_example 0) [[0, 0], [0, 0], [0, 0]] = [1, 2, 3, 4, 5]
   \<and> ReadAll 2 (sr_example 0) = [1, 2, 3, 4, 5]"
proof -
  have r1: "Read (sr_example 0) [0, 0, 0, 0] = (sr_example 4, [1, 2, 3, 4], 4, None)"
    by (simp add: Read_def sr_example_def seg_head_def seg_tail_def copy_def Let_def)
  have r2: "Read (sr_example 4) [9, 9] = (sr_example 5, [5, 9], 1, None)"
    by (simp add: Read_def sr_example_def seg_head_def seg_tail_def copy_def Let_def)
  have r3: "Read (sr_example 5) [9, 9] = (sr_example 5, [9, 9], 0, Some EOF)"
    by (simp add: Read_def sr_example_def seg_head_def seg_tail_def copy_def Let_def)
  have ht: "seg_head (sr_example 0) @ seg_tail (sr_example 0) = [1, 2, 3, 4, 5]"
    by (simp add: sr_example_def seg_head_def seg_tail_def)
  have si: "sr_si (sr_example 0) = 0" by (simp add: sr_example_def)
  note t = segmentReader_Read_contract [of "sr_example 5" "[9, 9]" "[]" 2]
  note u = segmentReader_Read_contract [of "sr_example 0" "[0, 0, 0, 0]" "[[0, 0], [0, 0], [0, 0]]" 2]
  have e: "Read (sr_example 5) [] = (sr_example 5, [], 0, None)" using t by simp
  have s: "ReadSeq (sr_example 0) [[0, 0], [0, 0], [0, 0]] = [1, 2, 3, 4, 5]"
    using u ht si by (simp add: sr_example_def seg_head_def seg_tail_def)
  have a: "ReadAll 2 (sr_example 0) = [1, 2, 3, 4, 5]"
    using u ht si by simp
  show ?thesis using e r1 r2 r3 s a by simp
qed

section \<open>Package commitlog: the commit log\<close>

text \<open>
  Of the commit log the files at hand hold the property test only. The test writes
  values of \<open>generatedWrite\<close>: a series, a datapoint, a time unit and an annotation. The
  value of a datapoint is a \<open>float64\<close>, kept here as its 64 bits.
\<close>

record Series =
  series_ID :: string
  series_Namespace :: string
  series_Shard :: "32 word"
  series_UniqueIndex :: "64 word"

record Datapoint =
  Timestamp :: Time
  Value :: "64 word"

datatype Unit = Nanosecond | Microsecond | Millisecond | Second | Minute | Hour | Day | Year
  | NoUnit

record generatedWrite =
  gw_series :: Series
  gw_datapoint :: Datapoint
  gw_unit :: Unit
  gw_annotation :: "byte list"

text \<open>
  Modelled from the spec: the commit log itself, that is its writer, flusher, file
  rotator and iterator, whose source is missing. The spec (sections 4.1 to 4.3 and 5)
  gives: a log is opened once and closed once; a write on a log that is not open fails
  with \<open>Closed\<close>, a second \<open>Open\<close> with \<open>AlreadyOpen\<close>; an accepted write is appended
  to the current batch under one mutex, so writes are steps one after the other; the
  batch is flushed as a unit, in enqueue order, to the active file when a write brings it
  past the flush size, when the flush interval elapses with a non-empty batch, on a
  rotation and on \<open>Close\<close>; under write-wait the write returns only after its record is
  flushed; a write whose timestamp is outside the window of the active file makes the
  writer finalise that file and open a new one whose window holds the timestamp, and the
  record goes to the new file; the iterator reads the files the file filter accepts in
  creation order and yields the records of each in order, skipping those whose series
  the series filter rejects. The directory is the list of its files in creation order,
  the active file last. The encoding is abstract: a file holds the records written to
  it, and \<open>encodedSize\<close> is the number of bytes of a record. Every flush succeeds: a
  flush that fails keeps the batch for the next attempt, and the claim is about a
  \<open>Close\<close> that has returned.
\<close>

datatype Strategy = StrategyWriteWait | StrategyWriteBehind

datatype Status = NotOpen | IsOpen | IsClosed

datatype commitlog_error = Closed | AlreadyOpen

record LogFile =
  file_blockStart :: Time
  file_blockSize :: Duration
  file_records :: "generatedWrite list"

record CommitLogOptions =
  opt_Strategy :: Strategy
  opt_BlockSize :: Duration
  opt_FlushSize :: nat

record CommitLog =
  cl_opts :: CommitLogOptions
  cl_status :: Status
  cl_batch :: "generatedWrite list"
  cl_files :: "LogFile list"

definition NewCommitLog :: "CommitLogOptions \<Rightarrow> LogFile list \<Rightarrow> CommitLog" where
  "NewCommitLog opts dir = \<lparr>cl_opts = opts, cl_status = NotOpen, cl_batch = [], cl_files = dir\<rparr>"

definition newFile :: "CommitLog \<Rightarrow> Time \<Rightarrow> LogFile" where
  "newFile cl t =
     \<lparr>file_blockStart = Truncate t (opt_BlockSize (cl_opts cl)),
      file_blockSize = opt_BlockSize (cl_opts cl), file_records = []\<rparr>"

definition inWindow :: "LogFile \<Rightarrow> Time \<Rightarrow> bool" where
  "inWindow f t = in_range (file_blockStart f, file_blockStart f + file_blockSize f) t"

text \<open>The batch goes to the end of the active file, which is the last one.\<close>

definition flush :: "CommitLog \<Rightarrow> CommitLog" where
  "flush cl =
     (case rev (cl_files cl) of
        [] \<Rightarrow> cl
      | active # older \<Rightarrow>
          cl\<lparr>cl_files :=
               rev older @ [active\<lparr>file_records := file_records active @ cl_batch cl\<rparr>],
             cl_batch := []\<rparr>)"

definition rotate :: "CommitLog \<Rightarrow> Time \<Rightarrow> CommitLog" where
  "rotate cl t = (let cl1 = flush cl in cl1\<lparr>cl_files := cl_files cl1 @ [newFile cl1 t]\<rparr>)"

definition batchBytes :: "(generatedWrite \<Rightarrow> nat) \<Rightarrow> CommitLog \<Rightarrow> nat" where
  "batchBytes encodedSize cl = sum_list (map encodedSize (cl_batch cl))"

definition Open :: "CommitLog \<Rightarrow> Time \<Rightarrow> CommitLog \<times> commitlog_error option" where
  "Open cl now =
     (case cl_status cl of
        IsOpen \<Rightarrow> (cl, Some AlreadyOpen)
      | IsClosed \<Rightarrow> (cl, Some Closed)
      | NotOpen \<Rightarrow> (cl\<lparr>cl_status := IsOpen, cl_files := cl_files cl @ [newFile cl now]\<rparr>, None))"

definition Write ::
  "(generatedWrite \<Rightarrow> nat) \<Rightarrow> CommitLog \<Rightarrow> generatedWrite \<Rightarrow> CommitLog \<times> commitlog_error option" where
  "Write encodedSize cl w =
     (if cl_status cl \<noteq> IsOpen then (cl, Some Closed)
      else
        let t = Timestamp (gw_datapoint w);
            cl1 = (case rev (cl_files cl) of
                     [] \<Rightarrow> rotate cl t
                   | active # older \<Rightarrow> if inWindow active t then cl else rotate cl t);
            cl2 = cl1\<lparr>cl_batch := cl_batch cl1 @ [w]\<rparr>;
            cl3 = (if opt_Strategy (cl_opts cl2) = StrategyWriteWait then flush cl2
                   else if batchBytes encodedSize cl2 > opt_FlushSize (cl_opts cl2) then flush cl2
                   else cl2)
        in (cl3, None))"

text \<open>The flush interval elapses.\<close>

definition Tick :: "CommitLog \<Rightarrow> CommitLog" where
  "Tick cl = (if cl_status cl = IsOpen \<and> cl_batch cl \<noteq> [] then flush cl else cl)"

definition Close :: "CommitLog \<Rightarrow> CommitLog \<times> commitlog_error option" where
  "Close cl =
     (if cl_status cl \<noteq> IsOpen then (cl, Some Closed)
      else ((flush cl)\<lparr>cl_status := IsClosed\<rparr>, None))"

text \<open>
  The iterator over a directory, with its two filters, as the list of the records that
  successive calls of \<open>Next\<close> and \<open>Current\<close> yield.
\<close>

definition Iterator_yields ::
  "(LogFile \<Rightarrow> bool) \<Rightarrow> (Series \<Rightarrow> bool) \<Rightarrow> LogFile list \<Rightarrow> generatedWrite list" where
  "Iterator_yields fileFilter seriesFilter dir =
     concat (map (\<lambda>f. filter (\<lambda>w. seriesFilter (gw_series w)) (file_records f))
               (filter fileFilter dir))"

definition ReadAllPredicate :: "LogFile \<Rightarrow> bool" where
  "ReadAllPredicate f = True"

definition ReadAllSeriesPredicate :: "Series \<Rightarrow> bool" where
  "ReadAllSeriesPredicate s = True"

text \<open>
  What happens to a log: calls of \<open>Open\<close>, \<open>Write\<close> and \<open>Close\<close>, and the flush timer.
  \<open>run\<close> performs the events in turn and collects the writes that were accepted, which
  are those \<open>Write\<close> returned no error for.
\<close>

datatype Event = EvOpen Time | EvWrite generatedWrite | EvTick | EvClose

fun run ::
  "(generatedWrite \<Rightarrow> nat) \<Rightarrow> CommitLog \<Rightarrow> Event list \<Rightarrow> CommitLog \<times> generatedWrite list" where
  "run encodedSize cl [] = (cl, [])"
| "run encodedSize cl (EvOpen now # evs) = run encodedSize (fst (Open cl now)) evs"
| "run encodedSize cl (EvWrite w # evs) =
     (case Write encodedSize cl w of
        (cl', None) \<Rightarrow> (case run encodedSize cl' evs of (cl'', ws) \<Rightarrow> (cl'', w # ws))
      | (cl', Some err) \<Rightarrow> run encodedSize cl' evs)"
| "run encodedSize cl (EvTick # evs) = run encodedSize (Tick cl) evs"
| "run encodedSize cl (EvClose # evs) = run encodedSize (fst (Close cl)) evs"

text \<open>
  The records a directory holds, in the order of its files, and the records a log holds:
  those of its directory followed by the batch.
\<close>

definition stored :: "LogFile list \<Rightarrow> generatedWrite list" where
  "stored dir = concat (map file_records dir)"

definition content :: "CommitLog \<Rightarrow> generatedWrite list" where
  "content cl = stored (cl_files cl) @ cl_batch cl"

text \<open>
  While a log is open it has an active file; while it is not, its batch is empty.
\<close>

definition log_inv :: "CommitLog \<Rightarrow> bool" where
  "log_inv cl =
     ((cl_status cl = IsOpen \<longrightarrow> cl_files cl \<noteq> [])
      \<and> (cl_status cl \<noteq> IsOpen \<longrightarrow> cl_batch cl = []))"

lemma Iterator_yields_all:
  "Iterator_yields ReadAllPredicate ReadAllSeriesPredicate dir = stored dir"
  by (simp add: Iterator_yields_def ReadAllPredicate_def ReadAllSeriesPredicate_def stored_def)

lemma stored_append [simp]: "stored (xs @ ys) = stored xs @ stored ys"
  by (simp add: stored_def)

lemma stored_single [simp]: "stored [f] = file_records f"
  by (simp add: stored_def)

lemma stored_Nil [simp]: "stored [] = []"
  by (simp add: stored_def)

lemma flush_Nil: "cl_files cl = [] \<Longrightarrow> flush cl = cl"
  by (simp add: flush_def)

lemma flush_snoc:
  "cl_files cl = older @ [active] \<Longrightarrow>
   flush cl = cl\<lparr>cl_files := older @ [active\<lparr>file_records := file_records active @ cl_batch cl\<rparr>],
                cl_batch := []\<rparr>"
  by (simp add: flush_def)

lemma flush_cases:
  obtains "cl_files cl = []" "flush cl = cl"
  | older active where "cl_files cl = older @ [active]"
      "flush cl = cl\<lparr>cl_files := older @ [active\<lparr>file_records := file_records active @ cl_batch cl\<rparr>],
                   cl_batch := []\<rparr>"
proof (cases "cl_files cl" rule: rev_cases)
  case Nil
  then show ?thesis using that(1) flush_Nil by simp
next
  case (snoc older active)
  then show ?thesis using that(2) flush_snoc by simp
qed

lemma content_flush [simp]: "content (flush cl) = content cl"
  by (cases cl rule: flush_cases) (simp_all add: content_def)

lemma status_flush [simp]: "cl_status (flush cl) = cl_status cl"
  by (cases cl rule: flush_cases) simp_all

lemma opts_flush [simp]: "cl_opts (flush cl) = cl_opts cl"
  by (cases cl rule: flush_cases) simp_all

lemma files_flush_Nil [simp]: "(cl_files (flush cl) = []) = (cl_files cl = [])"
  by (cases cl rule: flush_cases) simp_all

lemma batch_flush: "cl_files cl \<noteq> [] \<Longrightarrow> cl_batch (flush cl) = []"
  by (cases cl rule: flush_cases) simp_all

lemma content_rotate [simp]: "content (rotate cl t) = content cl"
proof -
  have "content (rotate cl t) = stored (cl_files (flush cl)) @ file_records (newFile (flush cl) t)
      @ cl_batch (flush cl)"
    by (simp add: rotate_def Let_def content_def)
  also have "\<dots> = content (flush cl)" by (simp add: newFile_def content_def)
  finally show ?thesis by simp
qed

lemma status_rotate [simp]: "cl_status (rotate cl t) = cl_status cl"
  by (simp add: rotate_def Let_def)

lemma opts_rotate [simp]: "cl_opts (rotate cl t) = cl_opts cl"
  by (simp add: rotate_def Let_def)

lemma files_rotate [simp]: "cl_files (rotate cl t) \<noteq> []"
  by (simp add: rotate_def Let_def)

text \<open>The log after the rotation check of \<open>Write\<close>.\<close>

definition rotated :: "CommitLog \<Rightarrow> Time \<Rightarrow> CommitLog" where
  "rotated cl t =
     (case rev (cl_files cl) of
        [] \<Rightarrow> rotate cl t
      | active # older \<Rightarrow> if inWindow active t then cl else rotate cl t)"

lemma rotated_props [simp]:
  "content (rotated cl t) = content cl"
  "cl_status (rotated cl t) = cl_status cl"
  "cl_opts (rotated cl t) = cl_opts cl"
  by (simp_all add: rotated_def split: list.splits)

lemma files_rotated: "cl_files cl \<noteq> [] \<Longrightarrow> cl_files (rotated cl t) \<noteq> []"
  by (auto simp: rotated_def split: list.splits)

lemma Write_closed: "cl_status cl \<noteq> IsOpen \<Longrightarrow> Write encodedSize cl w = (cl, Some Closed)"
  by (simp add: Write_def)

lemma Write_open:
  assumes "cl_status cl = IsOpen"
  shows "snd (Write encodedSize cl w) = None"
    and "content (fst (Write encodedSize cl w)) = content cl @ [w]"
    and "cl_status (fst (Write encodedSize cl w)) = IsOpen"
    and "cl_opts (fst (Write encodedSize cl w)) = cl_opts cl"
    and "cl_files cl \<noteq> [] \<Longrightarrow> cl_files (fst (Write encodedSize cl w)) \<noteq> []"
proof -
  let ?t = "Timestamp (gw_datapoint w)"
  let ?cl2 = "(rotated cl ?t)\<lparr>cl_batch := cl_batch (rotated cl ?t) @ [w]\<rparr>"
  have W: "Write encodedSize cl w =
      ((if opt_Strategy (cl_opts ?cl2) = StrategyWriteWait then flush ?cl2
        else if batchBytes encodedSize ?cl2 > opt_FlushSize (cl_opts ?cl2) then flush ?cl2
        else ?cl2), None)"
    using assms by (simp add: Write_def Let_def rotated_def)
  have c2: "content ?cl2 = content cl @ [w]"
  proof -
    have "content ?cl2 = content (rotated cl ?t) @ [w]" by (simp add: content_def)
    then show ?thesis by simp
  qed
  show "snd (Write encodedSize cl w) = None" by (simp add: W)
  show "content (fst (Write encodedSize cl w)) = content cl @ [w]"
    using c2 by (simp add: W)
  show "cl_status (fst (Write encodedSize cl w)) = IsOpen"
    using assms by (simp add: W)
  show "cl_opts (fst (Write encodedSize cl w)) = cl_opts cl"
    by (simp add: W)
  show "cl_files (fst (Write encodedSize cl w)) \<noteq> []" if "cl_files cl \<noteq> []"
    using files_rotated [OF that, of ?t] by (simp add: W)
qed

lemma Write_inv: "log_inv cl \<Longrightarrow> log_inv (fst (Write encodedSize cl w))"
proof (cases "cl_status cl = IsOpen")
  case True
  assume "log_inv cl"
  then have "cl_files cl \<noteq> []" using True by (simp add: log_inv_def)
  then show ?thesis using Write_open(3,5) [OF True, of encodedSize w] by (simp add: log_inv_def)
next
  case False
  assume "log_inv cl"
  then show ?thesis using False by (simp add: Write_closed)
qed

lemma Open_props:
  "content (fst (Open cl now)) = content cl"
  "log_inv cl \<Longrightarrow> log_inv (fst (Open cl now))"
  by (cases "cl_status cl"; simp add: Open_def content_def newFile_def log_inv_def)+

lemma Tick_props:
  "content (Tick cl) = content cl"
  "log_inv cl \<Longrightarrow> log_inv (Tick cl)"
  by (simp_all add: Tick_def log_inv_def)

lemma content_status [simp]: "content (cl\<lparr>cl_status := s\<rparr>) = content cl"
  by (simp add: content_def)

lemma Close_props:
  "content (fst (Close cl)) = content cl"
  "log_inv cl \<Longrightarrow> log_inv (fst (Close cl))"
proof -
  show "content (fst (Close cl)) = content cl"
    by (simp add: Close_def)
  show "log_inv (fst (Close cl))" if "log_inv cl"
  proof (cases "cl_status cl = IsOpen")
    case True
    then have "cl_files cl \<noteq> []" using that by (simp add: log_inv_def)
    then have "cl_batch (flush cl) = []" by (rule batch_flush)
    then show ?thesis using True by (simp add: Close_def log_inv_def)
  next
    case False
    then show ?thesis using that by (simp add: Close_def)
  qed
qed

lemma run_content:
  "log_inv cl \<Longrightarrow>
   log_inv (fst (run encodedSize cl evs))
   \<and> content (fst (run encodedSize cl evs)) = content cl @ snd (run encodedSize cl evs)"
proof (induction evs arbitrary: cl)
  case Nil
  then show ?case by simp
next
  case (Cons ev evs)
  show ?case
  proof (cases ev)
    case (EvOpen now)
    have "log_inv (fst (Open cl now))" using Cons.prems by (rule Open_props(2))
    from Cons.IH [OF this] show ?thesis using EvOpen by (simp add: Open_props(1))
  next
    case (EvWrite w)
    have i: "log_inv (fst (Write encodedSize cl w))" using Cons.prems by (rule Write_inv)
    note ih = Cons.IH [OF i]
    show ?thesis
    proof (cases "cl_status cl = IsOpen")
      case True
      have "snd (Write encodedSize cl w) = None"
        by (rule Write_open(1) [OF True])
      then have "run encodedSize cl (ev # evs) =
          (fst (run encodedSize (fst (Write encodedSize cl w)) evs),
           w # snd (run encodedSize (fst (Write encodedSize cl w)) evs))"
        using EvWrite by (simp add: split_beta)
      then show ?thesis using ih Write_open(2) [OF True, of encodedSize w] by simp
    next
      case False
      then have "run encodedSize cl (ev # evs) = run encodedSize cl evs"
        using EvWrite by (simp add: Write_closed)
      then show ?thesis using Cons.IH [OF Cons.prems] by simp
    qed
  next
    case EvTick
    have "log_inv (Tick cl)" using Cons.prems by (rule Tick_props(2))
    from Cons.IH [OF this] show ?thesis using EvTick by (simp add: Tick_props(1))
  next
    case EvClose
    have "log_inv (fst (Close cl))" using Cons.prems by (rule Close_props(2))
    from Cons.IH [OF this] show ?thesis using EvClose by (simp add: Close_props(1))
  qed
qed

lemma log_inv_New: "log_inv (NewCommitLog opts dir)"
  by (simp add: log_inv_def NewCommitLog_def)

lemma content_New: "content (NewCommitLog opts dir) = stored dir"
  by (simp add: content_def NewCommitLog_def)

lemma run_append:
  "run encodedSize cl (xs @ ys) =
     (fst (run encodedSize (fst (run encodedSize cl xs)) ys),
      snd (run encodedSize cl xs) @ snd (run encodedSize (fst (run encodedSize cl xs)) ys))"
proof (induction xs arbitrary: cl)
  case Nil
  then show ?case by simp
next
  case (Cons ev xs)
  show ?case
  proof (cases ev)
    case (EvWrite w)
    show ?thesis
    proof (cases "snd (Write encodedSize cl w)")
      case None
      then show ?thesis using EvWrite Cons.IH [of "fst (Write encodedSize cl w)"]
        by (simp add: split_beta)
    next
      case (Some err)
      then show ?thesis using EvWrite Cons.IH [of "fst (Write encodedSize cl w)"]
        by (simp add: split_beta)
    qed
  qed (simp_all add: Cons.IH)
qed

lemma Close_open:
  "cl_status cl = IsOpen \<Longrightarrow> snd (Close cl) = None \<and> cl_status (fst (Close cl)) = IsClosed"
  by (simp add: Close_def)

lemma closed_yields:
  assumes "log_inv cl" and "cl_status cl = IsClosed"
  shows "Iterator_yields ReadAllPredicate ReadAllSeriesPredicate (cl_files cl) = content cl"
proof -
  have "cl_batch cl = []" using assms by (simp add: log_inv_def)
  then show ?thesis by (simp add: Iterator_yields_all content_def)
qed

text \<open>
  Claim C1. Take a new log over a directory \<open>dir\<close>, with any options and so either
  strategy, and let any calls of \<open>Open\<close>, \<open>Write\<close> and \<open>Close\<close> and any flush timer
  events happen to it; \<open>W\<close> is the sequence of the writes that were accepted. Once the
  log is closed, an iterator that reads all files and all series yields the records the
  directory held before, followed by \<open>W\<close> in order: for a directory that was empty it
  yields exactly \<open>W\<close>, every element as often as it was accepted. And while the log is
  open, \<open>Close\<close> returns without an error and leaves the log closed, with the writes
  accepted so far in the files, whatever was still in the batch.
\<close>

theorem commitlog_durability:
  "(cl_status (fst (run encodedSize (NewCommitLog opts dir) evs)) = IsClosed \<longrightarrow>
      Iterator_yields ReadAllPredicate ReadAllSeriesPredicate
          (cl_files (fst (run encodedSize (NewCommitLog opts dir) evs)))
        = Iterator_yields ReadAllPredicate ReadAllSeriesPredicate dir
            @ snd (run encodedSize (NewCommitLog opts dir) evs)
      \<and> (dir = [] \<longrightarrow>
            Iterator_yields ReadAllPredicate ReadAllSeriesPredicate
                (cl_files (fst (run encodedSize (NewCommitLog opts dir) evs)))
              = snd (run encodedSize (NewCommitLog opts dir) evs)
            \<and> (\<forall>w. count (mset (Iterator_yields ReadAllPredicate ReadAllSeriesPredicate
                                  (cl_files (fst (run encodedSize (NewCommitLog opts dir) evs))))) w
                     = count (mset (snd (run encodedSize (NewCommitLog opts dir) evs))) w)))
   \<and> (cl_status (fst (run encodedSize (NewCommitLog opts dir) evs)) = IsOpen \<longrightarrow>
        snd (Close (fst (run encodedSize (NewCommitLog opts dir) evs))) = None
        \<and> cl_status (fst (run encodedSize (NewCommitLog opts dir) (evs @ [EvClose]))) = IsClosed
        \<and> snd (run encodedSize (NewCommitLog opts dir) (evs @ [EvClose]))
            = snd (run encodedSize (NewCommitLog opts dir) evs)
        \<and> Iterator_yields ReadAllPredicate ReadAllSeriesPredicate
             (cl_files (fst (run encodedSize (NewCommitLog opts dir) (evs @ [EvClose]))))
            = Iterator_yields ReadAllPredicate ReadAllSeriesPredicate dir
                @ snd (run encodedSize (NewCommitLog opts dir) evs))"
proof -
  let ?new = "NewCommitLog opts dir"
  have gen: "cl_status (fst (run encodedSize ?new es)) = IsClosed \<Longrightarrow>
      Iterator_yields ReadAllPredicate ReadAllSeriesPredicate (cl_files (fst (run encodedSize ?new es)))
        = Iterator_yields ReadAllPredicate ReadAllSeriesPredicate dir @ snd (run encodedSize ?new es)"
    for es
  proof -
    assume c: "cl_status (fst (run encodedSize ?new es)) = IsClosed"
    have r: "log_inv (fst (run encodedSize ?new es))
        \<and> content (fst (run encodedSize ?new es)) = content ?new @ snd (run encodedSize ?new es)"
      using log_inv_New by (rule run_content)
    then have "Iterator_yields ReadAllPredicate ReadAllSeriesPredicate
          (cl_files (fst (run encodedSize ?new es))) = content (fst (run encodedSize ?new es))"
      using c closed_yields by simp
    then show ?thesis using r by (simp add: content_New Iterator_yields_all)
  qed
  have app: "run encodedSize ?new (evs @ [EvClose])
      = (fst (Close (fst (run encodedSize ?new evs))), snd (run encodedSize ?new evs))"
    by (simp add: run_append)
  have A: "cl_status (fst (run encodedSize ?new evs)) = IsClosed \<longrightarrow>
      Iterator_yields ReadAllPredicate ReadAllSeriesPredicate (cl_files (fst (run encodedSize ?new evs)))
        = Iterator_yields ReadAllPredicate ReadAllSeriesPredicate dir @ snd (run encodedSize ?new evs)
      \<and> (dir = [] \<longrightarrow>
            Iterator_yields ReadAllPredicate ReadAllSeriesPredicate
                (cl_files (fst (run encodedSize ?new evs)))
              = snd (run encodedSize ?new evs)
            \<and> (\<forall>w. count (mset (Iterator_yields ReadAllPredicate ReadAllSeriesPredicate
                                  (cl_files (fst (run encodedSize ?new evs))))) w
                     = count (mset (snd (run encodedSize ?new evs))) w))"
  proof
    assume c: "cl_status (fst (run encodedSize ?new evs)) = IsClosed"
    note g = gen [OF c]
    have "dir = [] \<Longrightarrow> Iterator_yields ReadAllPredicate ReadAllSeriesPredicate
                (cl_files (fst (run encodedSize ?new evs))) = snd (run encodedSize ?new evs)"
      using g by (simp add: Iterator_yields_all)
    then show "Iterator_yields ReadAllPredicate ReadAllSeriesPredicate (cl_files (fst (run encodedSize ?new evs)))
        = Iterator_yields ReadAllPredicate ReadAllSeriesPredicate dir @ snd (run encodedSize ?new evs)
      \<and> (dir = [] \<longrightarrow>
            Iterator_yields ReadAllPredicate ReadAllSeriesPredicate
                (cl_files (fst (run encodedSize ?new evs)))
              = snd (run encodedSize ?new evs)
            \<and> (\<forall>w. count (mset (Iterator_yields ReadAllPredicate ReadAllSeriesPredicate
                                  (cl_files (fst (run encodedSize ?new evs))))) w
                     = count (mset (snd (run encodedSize ?new evs))) w))"
      using g by simp
  qed
  have B: "cl_status (fst (run encodedSize ?new evs)) = IsOpen \<longrightarrow>
        snd (Close (fst (run encodedSize ?new evs))) = None
        \<and> cl_status (fst (run encodedSize ?new (evs @ [EvClose]))) = IsClosed
        \<and> snd (run encodedSize ?new (evs @ [EvClose])) = snd (run encodedSize ?new evs)
        \<and> Iterator_yields ReadAllPredicate ReadAllSeriesPredicate
             (cl_files (fst (run encodedSize ?new (evs @ [EvClose]))))
            = Iterator_yields ReadAllPredicate ReadAllSeriesPredicate dir @ snd (run encodedSize ?new evs)"
  proof
    assume o: "cl_status (fst (run encodedSize ?new evs)) = IsOpen"
    have c: "cl_status (fst (run encodedSize ?new (evs @ [EvClose]))) = IsClosed"
      using Close_open [OF o] by (simp add: app)
    have s: "snd (run encodedSize ?new (evs @ [EvClose])) = snd (run encodedSize ?new evs)"
      by (simp add: app)
    show "snd (Close (fst (run encodedSize ?new evs))) = None
        \<and> cl_status (fst (run encodedSize ?new (evs @ [EvClose]))) = IsClosed
        \<and> snd (run encodedSize ?new (evs @ [EvClose])) = snd (run encodedSize ?new evs)
        \<and> Iterator_yields ReadAllPredicate ReadAllSeriesPredicate
             (cl_files (fst (run encodedSize ?new (evs @ [EvClose]))))
            = Iterator_yields ReadAllPredicate ReadAllSeriesPredicate dir @ snd (run encodedSize ?new evs)"
      using Close_open [OF o] c s gen [OF c] by (simp only: simp_thms)
  qed
  show ?thesis using A B by (rule conjI)
qed

text \<open>
  An example under write-behind with hourly files, a flush size that is never reached
  and records of ten bytes: three writes, the second in the next hour, the third the
  first one again.
\<close>

definition opts_wb :: CommitLogOptions where
  "opts_wb = \<lparr>opt_Strategy = StrategyWriteBehind, opt_BlockSize = 3600, opt_FlushSize = 1024\<rparr>"

definition write_at :: "Time \<Rightarrow> generatedWrite" where
  "write_at t =
     \<lparr>gw_series = \<lparr>series_ID = ''cpu'', series_Namespace = ''ns'', series_Shard = 3,
                    series_UniqueIndex = 0\<rparr>,
      gw_datapoint = \<lparr>Timestamp = t, Value = 42\<rparr>, gw_unit = Nanosecond, gw_annotation = []\<rparr>"

definition evs_ex :: "Event list" where
  "evs_ex = [EvOpen 7250, EvWrite (write_at 7300), EvWrite (write_at 11000), EvWrite (write_at 7300)]"

lemma run_evs_ex:
  "run (\<lambda>w. 10) (NewCommitLog opts_wb []) evs_ex =
     (\<lparr>cl_opts = opts_wb, cl_status = IsOpen, cl_batch = [write_at 7300],
       cl_files = [\<lparr>file_blockStart = 7200, file_blockSize = 3600, file_records = [write_at 7300]\<rparr>,
                   \<lparr>file_blockStart = 10800, file_blockSize = 3600, file_records = [write_at 11000]\<rparr>,
                   \<lparr>file_blockStart = 7200, file_blockSize = 3600, file_records = []\<rparr>]\<rparr>,
      [write_at 7300, write_at 11000, write_at 7300])"
proof -
  have t: "\<And>t. Timestamp (gw_datapoint (write_at t)) = t" by (simp add: write_at_def)
  show ?thesis
    by (simp add: evs_ex_def NewCommitLog_def Open_def Write_def flush_def rotate_def newFile_def
        inWindow_def in_range_def Truncate_def batchBytes_def Let_def opts_wb_def t)
qed

theorem commitlog_durability_witness:
  "cl_status (fst (run (\<lambda>w. 10) (NewCommitLog opts_wb []) evs_ex)) = IsOpen
   \<and> cl_batch (fst (run (\<lambda>w. 10) (NewCommitLog opts_wb []) evs_ex)) = [write_at 7300]
   \<and> cl_status (fst (run (\<lambda>w. 10) (NewCommitLog opts_wb []) (evs_ex @ [EvClose]))) = IsClosed
   \<and> snd (run (\<lambda>w. 10) (NewCommitLog opts_wb []) (evs_ex @ [EvClose]))
       = [write_at 7300, write_at 11000, write_at 7300]
   \<and> Iterator_yields ReadAllPredicate ReadAllSeriesPredicate
        (cl_files (fst (run (\<lambda>w. 10) (NewCommitLog opts_wb []) (evs_ex @ [EvClose]))))
       = [write_at 7300, write_at 11000, write_at 7300]
   \<and> count (mset (Iterator_yields ReadAllPredicate ReadAllSeriesPredicate
                    (cl_files (fst (run (\<lambda>w. 10) (NewCommitLog opts_wb []) (evs_ex @ [EvClose]))))))
        (write_at 7300) = 2"
proof -
  let ?run = "run (\<lambda>w. 10) (NewCommitLog opts_wb [])"
  have o: "cl_status (fst (?run evs_ex)) = IsOpen" by (simp add: run_evs_ex)
  have b: "cl_batch (fst (?run evs_ex)) = [write_at 7300]" by (simp add: run_evs_ex)
  have w: "snd (?run evs_ex) = [write_at 7300, write_at 11000, write_at 7300]"
    by (simp add: run_evs_ex)
  have y0: "Iterator_yields ReadAllPredicate ReadAllSeriesPredicate ([] :: LogFile list) = []"
    by (simp add: Iterator_yields_def)
  note open_case = commitlog_durability [of "\<lambda>w. 10" opts_wb "[]" evs_ex]
  have c: "cl_status (fst (?run (evs_ex @ [EvClose]))) = IsClosed"
    using open_case o by blast
  have s: "snd (?run (evs_ex @ [EvClose])) = [write_at 7300, write_at 11000, write_at 7300]"
    using open_case o w by simp
  note closed_case = commitlog_durability [of "\<lambda>w. 10" opts_wb "[]" "evs_ex @ [EvClose]"]
  have y: "Iterator_yields ReadAllPredicate ReadAllSeriesPredicate
        (cl_files (fst (?run (evs_ex @ [EvClose])))) = [write_at 7300, write_at 11000, write_at 7300]"
    using closed_case c s by (simp add: y0)
  have n: "write_at 11000 \<noteq> write_at 7300" by (simp add: write_at_def)
  have k: "count (mset [write_at 7300, write_at 11000, write_at 7300]) (write_at 7300) = 2"
    using n by simp
  show ?thesis using o b c s y k by simp
qed

end
